theory Spec2Isabelle
  imports Main
begin

section \<open>Values\<close>

text \<open>
  The library is generic in the value type \<open>T\<close> and the argument type \<open>A\<close>. The model
  uses one universe of JavaScript values: \<open>undefined\<close> (also what an omitted optional
  parameter reads as), booleans, integral numbers, strings and \<open>Error\<close> objects.
  An \<open>Error\<close> object has an identity and a message. Objects made by the caller or by an
  executor carry a \<open>Foreign\<close> identity; the objects that \<open>performExec\<close> makes with
  \<open>new Error(err)\<close> carry a \<open>Wrapped\<close> identity, numbered by the allocation counter of
  the execution state object. On these values \<open>===\<close> is HOL equality (there is no
  \<open>NaN\<close> in the universe, and two objects are equal exactly when they are the same object).

  The message of an \<open>Error\<close> object is either a given text or the string conversion of
  a value. How JavaScript converts a value to a string (the formatting of numbers, the
  name an \<open>Error\<close> subclass prints) is the language's business and no code of the
  library depends on it, so the conversion is not computed: \<open>StringOf v\<close> stands for
  the string that \<open>String(v)\<close> returns.
\<close>

datatype ref = Foreign nat | Wrapped nat

datatype val = Undefined | Bool bool | Num int | Str string | ErrorObj ref msg
  and msg = Text string | StringOf val

text \<open>\<open>v instanceof Error\<close>\<close>

fun instanceof_Error :: "val \<Rightarrow> bool" where
  "instanceof_Error (ErrorObj r m) = True"
| "instanceof_Error v = False"

text \<open>
  \<open>new Error(err)\<close>: a new object whose message is the string conversion of \<open>err\<close>
  (the empty message when \<open>err\<close> is \<open>undefined\<close>). The argument \<open>k\<close> is the number of
  objects allocated this way so far.
\<close>

definition new_Error :: "nat \<Rightarrow> val \<Rightarrow> val" where
  "new_Error k err = ErrorObj (Wrapped k) (if err = Undefined then Text [] else StringOf err)"

section \<open>Productions, executors and subscriptions\<close>

text \<open>
  An \<open>Observable\<close> returned by an executor is cold: nothing happens until it is
  subscribed. A production is the script of notifications one subscription receives:
  those delivered synchronously inside \<open>subscribe\<close> (as \<open>of(x)\<close> and \<open>throwError(e)\<close>
  do), then those delivered later, one at each \<open>Fire\<close> event of the scheduler. A
  subscriber that has received \<open>error\<close> or \<open>complete\<close>, or that was unsubscribed, is
  closed and ignores whatever its production still sends.

  An executor is an arbitrary function of the caller. Its first argument here is the
  number of invocations made before this one, so that an executor whose production
  differs from call to call is covered; \<open>Executor<T, A>\<close> declares that a call returns an
  \<open>Observable\<close>, and the model follows that type.
\<close>

datatype notif = Next val | Error val | Complete

record production =
  sync :: "notif list"
  async :: "notif list"

type_synonym executor = "nat \<Rightarrow> val \<Rightarrow> production"

text \<open>
  One record per executor invocation: the arguments it was called with, what its
  production has still to send, and whether the subscription to it is closed. Every
  invocation in the library is subscribed at once, so the list of these records is
  also the log of the calls of the executor.
\<close>

record invocation =
  args :: val
  pending :: "notif list"
  closed :: bool

definition close :: "nat \<Rightarrow> invocation list \<Rightarrow> invocation list" where
  "close i ss = (if i < length ss then ss[i := (ss ! i)\<lparr>closed := True\<rparr>] else ss)"

definition is_open :: "nat \<Rightarrow> invocation list \<Rightarrow> bool" where
  "is_open i ss = (i < length ss \<and> \<not> closed (ss ! i))"

section \<open>BehaviorSubject\<close>

text \<open>
  A \<open>BehaviorSubject\<close> holds a current value and a list of observers. An observer is
  modelled by the values it has been handed, in order. Two kinds of observer occur:
  a plain subscriber of a container, and the pipeline that \<open>execAlways\<close> attaches,
  \<open>subject.pipe(distinctUntilChanged()).subscribe(val => val !== initialValue && observer.next(val))\<close>,
  which keeps the last value that passed \<open>distinctUntilChanged\<close> in \<open>key\<close>.
\<close>

datatype pipe = Direct | DistinctSkip val

record observer =
  pipe :: pipe
  key :: "val option"
  received :: "val list"

record bsubject =
  cur :: val
  observers :: "observer list"

fun observer_next :: "val \<Rightarrow> observer \<Rightarrow> observer" where
  "observer_next v ob =
     (case pipe ob of
        Direct \<Rightarrow> ob\<lparr>received := received ob @ [v]\<rparr>
      | DistinctSkip v0 \<Rightarrow>
          (if key ob = Some v then ob
           else ob\<lparr>key := Some v,
                   received := (if v \<noteq> v0 then received ob @ [v] else received ob)\<rparr>))"

definition new_BehaviorSubject :: "val \<Rightarrow> bsubject" where
  "new_BehaviorSubject v = \<lparr>cur = v, observers = []\<rparr>"

definition getValue :: "bsubject \<Rightarrow> val" where
  "getValue b = cur b"

definition bs_next :: "val \<Rightarrow> bsubject \<Rightarrow> bsubject" where
  "bs_next v b = \<lparr>cur = v, observers = map (observer_next v) (observers b)\<rparr>"

text \<open>Subscribing replays the current value to the new observer.\<close>

definition bs_subscribe :: "observer \<Rightarrow> bsubject \<Rightarrow> bsubject" where
  "bs_subscribe ob b = b\<lparr>observers := observers b @ [observer_next (cur b) ob]\<rparr>"

definition plain_observer :: observer where
  "plain_observer = \<lparr>pipe = Direct, key = None, received = []\<rparr>"

section \<open>execAndForward\<close>

record fwd_state =
  subject :: bsubject
  subs :: "invocation list"

definition calls :: "fwd_state \<Rightarrow> val list" where
  "calls s = map args (subs s)"

text \<open>
  The subscriber \<open>(val) => subject.next(val)\<close> of invocation \<open>i\<close>. It has no error
  callback: an \<open>error\<close> notification closes the subscription and nothing is handed to
  the subject.
\<close>

fun forward :: "nat \<Rightarrow> notif \<Rightarrow> fwd_state \<Rightarrow> fwd_state" where
  "forward i (Next v) s = s\<lparr>subject := bs_next v (subject s)\<rparr>"
| "forward i (Error e) s = s\<lparr>subs := close i (subs s)\<rparr>"
| "forward i Complete s = s\<lparr>subs := close i (subs s)\<rparr>"

fun forward_sync :: "nat \<Rightarrow> notif list \<Rightarrow> fwd_state \<Rightarrow> fwd_state" where
  "forward_sync i [] s = s"
| "forward_sync i (n # ns) s =
     (if is_open i (subs s) then forward_sync i ns (forward i n s) else s)"

definition execAndForward :: "executor \<Rightarrow> fwd_state \<Rightarrow> val \<Rightarrow> fwd_state" where
  "execAndForward exec s execArgs =
     (let i = length (subs s);
          p = exec i execArgs
      in forward_sync i (sync p)
           (s\<lparr>subs := subs s @ [\<lparr>args = execArgs, pending = async p, closed = False\<rparr>]\<rparr>))"

text \<open>The scheduler lets the production of invocation \<open>i\<close> send its next notification.\<close>

definition fire :: "nat \<Rightarrow> fwd_state \<Rightarrow> fwd_state" where
  "fire i s =
     (if is_open i (subs s) then
        (case pending (subs s ! i) of
           [] \<Rightarrow> s
         | n # ns \<Rightarrow> forward i n (s\<lparr>subs := (subs s)[i := (subs s ! i)\<lparr>pending := ns\<rparr>]\<rparr>))
      else s)"

section \<open>execOnce\<close>

definition execOnce :: "executor \<Rightarrow> val \<Rightarrow> fwd_state" where
  "execOnce exec initialValue =
     execAndForward exec \<lparr>subject = new_BehaviorSubject initialValue, subs = []\<rparr> Undefined"

text \<open>
  What can happen to the returned container afterwards: a subscriber attaches, or the
  production of an invocation sends its next notification.
\<close>

datatype once_event = OnceAttach | OnceFire nat

fun once_step :: "fwd_state \<Rightarrow> once_event \<Rightarrow> fwd_state" where
  "once_step s OnceAttach = s\<lparr>subject := bs_subscribe plain_observer (subject s)\<rparr>"
| "once_step s (OnceFire i) = fire i s"

definition once_run :: "once_event list \<Rightarrow> fwd_state \<Rightarrow> fwd_state" where
  "once_run evs s = foldl once_step s evs"

section \<open>execControlled\<close>

text \<open>
  \<open>control\<close> is a function of the caller that is handed \<open>doExec\<close>. All it can do to the
  container is call \<open>doExec\<close>, during the call of \<open>control\<close> or later. It is modelled by
  the list of arguments of the calls it makes before it returns; a call of \<open>doExec\<close>
  made later, by whoever holds it, is the event \<open>CtlTrigger\<close>. The parameter
  \<open>executeImmediately\<close> is optional and defaults to \<open>true\<close>.
\<close>

definition execControlled :: "executor \<Rightarrow> val list \<Rightarrow> val \<Rightarrow> bool option \<Rightarrow> fwd_state" where
  "execControlled exec control initialValue executeImmediately =
     (let s0 = \<lparr>subject = new_BehaviorSubject initialValue, subs = []\<rparr>;
          s1 = foldl (execAndForward exec) s0 control
      in if (case executeImmediately of None \<Rightarrow> True | Some b \<Rightarrow> b)
         then execAndForward exec s1 Undefined else s1)"

datatype ctl_event = CtlAttach | CtlTrigger val | CtlFire nat

fun ctl_step :: "executor \<Rightarrow> fwd_state \<Rightarrow> ctl_event \<Rightarrow> fwd_state" where
  "ctl_step exec s CtlAttach = s\<lparr>subject := bs_subscribe plain_observer (subject s)\<rparr>"
| "ctl_step exec s (CtlTrigger a) = execAndForward exec s a"
| "ctl_step exec s (CtlFire i) = fire i s"

definition ctl_run :: "executor \<Rightarrow> ctl_event list \<Rightarrow> fwd_state \<Rightarrow> fwd_state" where
  "ctl_run exec evs s = foldl (ctl_step exec) s evs"

fun triggers :: "ctl_event list \<Rightarrow> val list" where
  "triggers [] = []"
| "triggers (CtlTrigger a # evs) = a # triggers evs"
| "triggers (e # evs) = triggers evs"

section \<open>execAlways\<close>

text \<open>
  \<open>execAlways\<close> makes the shared subject and returns an \<open>Observable\<close>; the function
  given to \<open>new Observable\<close> runs at every subscription, on the shared subject.
\<close>

definition execAlways :: "executor \<Rightarrow> val \<Rightarrow> fwd_state" where
  "execAlways exec initialValue = \<lparr>subject = new_BehaviorSubject initialValue, subs = []\<rparr>"

definition always_subscribe :: "executor \<Rightarrow> val \<Rightarrow> fwd_state \<Rightarrow> fwd_state" where
  "always_subscribe exec initialValue s =
     (let first = (if getValue (subject s) = initialValue then [initialValue] else []);
          s1 = execAndForward exec s Undefined
      in s1\<lparr>subject :=
              bs_subscribe \<lparr>pipe = DistinctSkip initialValue, key = None, received = first\<rparr>
                (subject s1)\<rparr>)"

datatype alw_event = AlwSubscribe | AlwFire nat

fun alw_step :: "executor \<Rightarrow> val \<Rightarrow> fwd_state \<Rightarrow> alw_event \<Rightarrow> fwd_state" where
  "alw_step exec v0 s AlwSubscribe = always_subscribe exec v0 s"
| "alw_step exec v0 s (AlwFire i) = fire i s"

definition alw_run :: "executor \<Rightarrow> val \<Rightarrow> alw_event list \<Rightarrow> fwd_state \<Rightarrow> fwd_state" where
  "alw_run exec v0 evs s = foldl (alw_step exec v0) s evs"

section \<open>ExecSubject\<close>

text \<open>
  The object is itself a \<open>BehaviorSubject\<close> (\<open>self\<close>). The error and loading channels
  belong to the caller and are optional. \<open>execs\<close> holds the inner subscriptions that
  \<open>switchMap\<close> has made, \<open>innerSubscription\<close> the one it would unsubscribe at the next
  trigger, and \<open>allocated\<close> counts the \<open>Error\<close> objects made by \<open>performExec\<close>.
  The pipeline built in \<open>init\<close> has one subscriber for the whole life of the object and
  its source \<open>_executionStream\<close> never completes, so \<open>share()\<close> passes every value on.
\<close>

record es_state =
  self :: bsubject
  error_ch :: "bsubject option"
  loading_ch :: "bsubject option"
  execs :: "invocation list"
  innerSubscription :: "nat option"
  allocated :: nat

definition ExecSubject :: "executor \<Rightarrow> val \<Rightarrow> bsubject option \<Rightarrow> bsubject option \<Rightarrow> es_state" where
  "ExecSubject exec initialValue err loading =
     \<lparr>self = new_BehaviorSubject initialValue, error_ch = err, loading_ch = loading,
      execs = [], innerSubscription = None, allocated = 0\<rparr>"

text \<open>The callback of \<open>tap\<close>.\<close>

definition tap :: "val \<Rightarrow> es_state \<Rightarrow> es_state" where
  "tap v s =
     (let s1 = s\<lparr>loading_ch := map_option (bs_next (Bool False)) (loading_ch s)\<rparr>
      in if instanceof_Error v then s1\<lparr>error_ch := map_option (bs_next v) (error_ch s1)\<rparr>
         else s1)"

text \<open>\<open>tap\<close>, then \<open>filter(result => !(result instanceof Error))\<close>, then \<open>this.next(val)\<close>.\<close>

definition pipeline :: "val \<Rightarrow> es_state \<Rightarrow> es_state" where
  "pipeline v s =
     (let s1 = tap v s
      in if \<not> instanceof_Error v then s1\<lparr>self := bs_next v (self s1)\<rparr> else s1)"

text \<open>
  What \<open>switchMap\<close> receives from the inner subscription of invocation \<open>i\<close>, that is
  from \<open>exec(args).pipe(catchError(err => of(new Error(err))))\<close>: a value goes down the
  pipeline; an error is replaced by a new \<open>Error\<close> object, which goes down the pipeline
  as a value, and the inner subscription ends; completion ends it.
\<close>

fun performExec :: "nat \<Rightarrow> notif \<Rightarrow> es_state \<Rightarrow> es_state" where
  "performExec i (Next v) s = pipeline v s"
| "performExec i (Error err) s =
     (let s1 = pipeline (new_Error (allocated s) err) (s\<lparr>allocated := Suc (allocated s)\<rparr>)
      in s1\<lparr>execs := close i (execs s1)\<rparr>)"
| "performExec i Complete s = s\<lparr>execs := close i (execs s)\<rparr>"

fun performExec_sync :: "nat \<Rightarrow> notif list \<Rightarrow> es_state \<Rightarrow> es_state" where
  "performExec_sync i [] s = s"
| "performExec_sync i (n # ns) s =
     (if is_open i (execs s) then performExec_sync i ns (performExec i n s) else s)"

text \<open>
  \<open>exec(args)\<close>: the loading channel is set, then the trigger reaches \<open>switchMap\<close>,
  which unsubscribes the inner subscription it holds and subscribes to the production
  of the new invocation.
\<close>

definition exec :: "executor \<Rightarrow> val \<Rightarrow> es_state \<Rightarrow> es_state" where
  "exec executor a s =
     (let s1 = s\<lparr>loading_ch := map_option (bs_next (Bool True)) (loading_ch s)\<rparr>;
          s2 = (case innerSubscription s1 of
                  None \<Rightarrow> s1
                | Some j \<Rightarrow> s1\<lparr>execs := close j (execs s1)\<rparr>);
          i = length (execs s2);
          p = executor i a;
          s3 = s2\<lparr>execs := execs s2 @ [\<lparr>args = a, pending = async p, closed = False\<rparr>]\<rparr>
      in (performExec_sync i (sync p) s3)\<lparr>innerSubscription := Some i\<rparr>)"

definition es_fire :: "nat \<Rightarrow> es_state \<Rightarrow> es_state" where
  "es_fire i s =
     (if is_open i (execs s) then
        (case pending (execs s ! i) of
           [] \<Rightarrow> s
         | n # ns \<Rightarrow> performExec i n (s\<lparr>execs := (execs s)[i := (execs s ! i)\<lparr>pending := ns\<rparr>]\<rparr>))
      else s)"

datatype es_event = Exec val | EsAttach | EsFire nat

fun es_step :: "executor \<Rightarrow> es_state \<Rightarrow> es_event \<Rightarrow> es_state" where
  "es_step executor s (Exec a) = exec executor a s"
| "es_step executor s EsAttach = s\<lparr>self := bs_subscribe plain_observer (self s)\<rparr>"
| "es_step executor s (EsFire i) = es_fire i s"

definition es_run :: "executor \<Rightarrow> es_event list \<Rightarrow> es_state \<Rightarrow> es_state" where
  "es_run executor evs s = foldl (es_step executor) s evs"

section \<open>Some executors\<close>

text \<open>\<open>() => of(x)\<close>, which emits at subscription, and an executor that emits later.\<close>

definition exec_of :: "val \<Rightarrow> executor" where
  "exec_of x k a = \<lparr>sync = [Next x, Complete], async = []\<rparr>"

definition exec_later :: "val \<Rightarrow> executor" where
  "exec_later x k a = \<lparr>sync = [], async = [Next x, Complete]\<rparr>"

text \<open>
  An executor whose production emits \<open>x\<close>, then raises \<open>err\<close>, and would emit \<open>y\<close>
  after that if anyone still listened: on its first invocation all of this happens
  later, on the following ones at subscription.
\<close>

definition exec_fails :: "val \<Rightarrow> val \<Rightarrow> val \<Rightarrow> executor" where
  "exec_fails x err y k a =
     (if k = 0 then \<lparr>sync = [], async = [Next x, Error err, Next y]\<rparr>
      else \<lparr>sync = [Next x, Error err, Next y], async = []\<rparr>)"

text \<open>An executor whose production emits the same value twice, later.\<close>

definition exec_twice :: "val \<Rightarrow> executor" where
  "exec_twice x k a = \<lparr>sync = [], async = [Next x, Next x, Complete]\<rparr>"

text \<open>An executor whose production emits two values later and then completes.\<close>

definition exec_two :: "val \<Rightarrow> val \<Rightarrow> executor" where
  "exec_two x y k a = \<lparr>sync = [], async = [Next x, Next y, Complete]\<rparr>"


definition exec_spec_later :: executor where
  "exec_spec_later k n =
     (if n = Num 0 then \<lparr>sync = [], async = [Error (Str ''bad'')]\<rparr>
      else \<lparr>sync = [], async = [Next n, Complete]\<rparr>)"

text \<open>\<open>(n) => of(n * 2)\<close>, delivering later.\<close>

definition exec_double :: executor where
  "exec_double k a =
     \<lparr>sync = [], async = [Next (case a of Num n \<Rightarrow> Num (2 * n) | _ \<Rightarrow> a), Complete]\<rparr>"

text \<open>An \<open>Error\<close> object of the caller.\<close>

definition boom :: val where
  "boom = ErrorObj (Foreign 0) (Text ''boom'')"

text \<open>
  A loading channel and an error channel as a caller would pass them, each with one
  subscriber; \<open>log\<close> reads what the subscribers of a channel have received.
\<close>

definition spec_loading :: bsubject where
  "spec_loading = bs_subscribe plain_observer (new_BehaviorSubject (Bool False))"

definition spec_error :: bsubject where
  "spec_error = bs_subscribe plain_observer (new_BehaviorSubject Undefined)"

definition log :: "bsubject option \<Rightarrow> val list list" where
  "log c = (case c of None \<Rightarrow> [] | Some b \<Rightarrow> map received (observers b))"

text \<open>
  The number of values that the pipeline of the execution state object receives from
  the notifications a production delivers at subscription: one for each emission, and
  one for the failure that ends it, if it ends so.
\<close>

fun sync_values :: "notif list \<Rightarrow> nat" where
  "sync_values [] = 0"
| "sync_values (Next v # ns) = Suc (sync_values ns)"
| "sync_values (Error e # ns) = 1"
| "sync_values (Complete # ns) = 0"

fun is_Next :: "notif \<Rightarrow> bool" where
  "is_Next (Next v) = True"
| "is_Next n = False"

text \<open>An invocation whose subscription exists and is closed.\<close>

definition closed_at :: "nat \<Rightarrow> invocation list \<Rightarrow> bool" where
  "closed_at i ss = (i < length ss \<and> closed (ss ! i))"

text \<open>
  The state of the observers of \<open>execAlways\<close>: each is the pipeline attached at a
  subscription, and the last value that passed its \<open>distinctUntilChanged\<close> is the
  current value of the shared subject.
\<close>

definition alw_inv :: "val \<Rightarrow> bsubject \<Rightarrow> bool" where
  "alw_inv v0 b =
     list_all (\<lambda>ob. pipe ob = DistinctSkip v0 \<and> key ob = Some (cur b)) (observers b)"

text \<open>The log \<open>r\<close> is the log \<open>r0\<close> followed by deliveries none of which is \<open>v0\<close>.\<close>

definition extends_without :: "val \<Rightarrow> val list \<Rightarrow> val list \<Rightarrow> bool" where
  "extends_without v0 r0 r = (take (length r0) r = r0 \<and> v0 \<notin> set (drop (length r0) r))"

definition grows :: "val \<Rightarrow> bsubject \<Rightarrow> bsubject \<Rightarrow> bool" where
  "grows v0 b b' =
     (length (observers b) \<le> length (observers b') \<and>
      (\<forall>n < length (observers b).
         extends_without v0 (received (observers b ! n)) (received (observers b' ! n))))"

text \<open>
  Switch-to-latest, as a property of a state: every inner subscription other than the
  one \<open>switchMap\<close> holds is closed.
\<close>

definition others_closed :: "nat option \<Rightarrow> invocation list \<Rightarrow> bool" where
  "others_closed c ss = (\<forall>j < length ss. c \<noteq> Some j \<longrightarrow> closed (ss ! j))"

text \<open>A notification from an invocation made before invocation \<open>k\<close>.\<close>

fun fires_before :: "nat \<Rightarrow> es_event \<Rightarrow> bool" where
  "fires_before k (EsFire j) = (j < k)"
| "fires_before k e = False"

fun is_EsFire :: "es_event \<Rightarrow> bool" where
  "is_EsFire (EsFire j) = True"
| "is_EsFire e = False"

text \<open>
  The values a production emits while it is subscribed to, up to its first failure or
  completion: what a subscriber receives of the notifications delivered at
  subscription.
\<close>

fun sync_forwarded :: "notif list \<Rightarrow> val list" where
  "sync_forwarded [] = []"
| "sync_forwarded (Next v # ns) = v # sync_forwarded ns"
| "sync_forwarded (Error e # ns) = []"
| "sync_forwarded (Complete # ns) = []"

text \<open>What the callers of the execution state object can see of it.\<close>

definition visible :: "es_state \<Rightarrow> bsubject \<times> bsubject option \<times> bsubject option" where
  "visible s = (self s, error_ch s, loading_ch s)"

text \<open>
  Two executors that differ at most in what the production of invocation \<open>i\<close> sends
  after its subscription.
\<close>

definition later_only :: "nat \<Rightarrow> executor \<Rightarrow> executor \<Rightarrow> bool" where
  "later_only i E E' =
     (\<forall>k a. sync (E' k a) = sync (E k a) \<and> (k \<noteq> i \<longrightarrow> async (E' k a) = async (E k a)))"

text \<open>Two states that differ at most in what invocation \<open>i\<close> has still to send.\<close>

definition same_but_pending :: "nat \<Rightarrow> invocation list \<Rightarrow> invocation list \<Rightarrow> bool" where
  "same_but_pending i ss ss' =
     (length ss = length ss' \<and>
      (\<forall>j < length ss. args (ss ! j) = args (ss' ! j) \<and> closed (ss ! j) = closed (ss' ! j)
         \<and> (j \<noteq> i \<longrightarrow> pending (ss ! j) = pending (ss' ! j))))"

definition alike :: "nat \<Rightarrow> es_state \<Rightarrow> es_state \<Rightarrow> bool" where
  "alike i s s' =
     (visible s = visible s' \<and> innerSubscription s = innerSubscription s'
      \<and> allocated s = allocated s' \<and> same_but_pending i (execs s) (execs s'))"

text \<open>
  \<open>exec_double\<close>, except that the production of its first invocation emits 99 and
  then raises.
\<close>

definition exec_double_but :: executor where
  "exec_double_but k a =
     (if k = 0 then \<lparr>sync = [], async = [Next (Num 99), Error (Str ''bad'')]\<rparr>
      else exec_double k a)"

section \<open>Subscriptions: basic facts\<close>

lemma map_args_close [simp]: "map args (close i ss) = map args ss"
  by (simp add: close_def map_update list_update_same_conv)

lemma length_close [simp]: "length (close i ss) = length ss"
  by (simp add: close_def)

lemma closed_at_close: "closed_at j ss \<Longrightarrow> closed_at j (close i ss)"
  by (auto simp: closed_at_def close_def nth_list_update)

lemma closed_at_close_self: "i < length ss \<Longrightarrow> closed_at i (close i ss)"
  by (simp add: closed_at_def close_def)

lemma closed_at_append: "closed_at j ss \<Longrightarrow> closed_at j (ss @ [x])"
  by (auto simp: closed_at_def nth_append)

lemma closed_at_pending_update:
  "closed_at j ss \<Longrightarrow> closed_at j (ss[i := (ss ! i)\<lparr>pending := ns\<rparr>])"
  by (cases "i = j") (auto simp: closed_at_def)

lemma closed_at_not_open: "closed_at i ss \<Longrightarrow> \<not> is_open i ss"
  by (simp add: closed_at_def is_open_def)

lemma getValue_bs_next [simp]: "getValue (bs_next v b) = v"
  by (simp add: getValue_def bs_next_def)

section \<open>The calls of the executor made through execAndForward\<close>

lemma calls_forward [simp]: "calls (forward i n s) = calls s"
  by (cases n) (simp_all add: calls_def)

lemma calls_forward_sync [simp]: "calls (forward_sync i ns s) = calls s"
  by (induction ns arbitrary: s) simp_all

lemma calls_execAndForward [simp]: "calls (execAndForward E s a) = calls s @ [a]"
  by (simp add: execAndForward_def Let_def) (simp add: calls_def)

lemma calls_fire [simp]: "calls (fire i s) = calls s"
  by (simp add: fire_def is_open_def split: list.splits)
     (simp add: calls_def map_update list_update_same_conv)

lemma calls_subject_update [simp]: "calls (s\<lparr>subject := b\<rparr>) = calls s"
  by (simp add: calls_def)

lemma calls_once_run [simp]: "calls (once_run evs s) = calls s"
proof (induction evs arbitrary: s)
  case Nil
  then show ?case by (simp add: once_run_def)
next
  case (Cons e evs)
  then show ?case by (cases e) (simp_all add: once_run_def)
qed

lemma calls_foldl_execAndForward [simp]:
  "calls (foldl (execAndForward E) s as) = calls s @ as"
  by (induction as arbitrary: s) simp_all

lemma calls_ctl_run [simp]: "calls (ctl_run E evs s) = calls s @ triggers evs"
proof (induction evs arbitrary: s)
  case Nil
  then show ?case by (simp add: ctl_run_def)
next
  case (Cons e evs)
  then show ?case by (cases e) (simp_all add: ctl_run_def)
qed

section \<open>What execAndForward hands to the subject\<close>

lemma subject_forward_sync_no_Next:
  "list_all (\<lambda>n. \<not> is_Next n) ns \<Longrightarrow> subject (forward_sync i ns s) = subject s"
proof (induction ns arbitrary: s)
  case Nil
  then show ?case by simp
next
  case (Cons n ns)
  then show ?case by (cases n) simp_all
qed

lemma fire_Next:
  "is_open i (subs s) \<Longrightarrow> pending (subs s ! i) = Next x # ns \<Longrightarrow>
   subject (fire i s) = bs_next x (subject s)"
  by (simp add: fire_def)

lemma length_subs_forward [simp]: "length (subs (forward i n s)) = length (subs s)"
  by (cases n) simp_all

lemma closed_at_forward: "closed_at j (subs s) \<Longrightarrow> closed_at j (subs (forward i n s))"
  by (cases n) (simp_all add: closed_at_close)

lemma closed_at_forward_sync:
  "closed_at j (subs s) \<Longrightarrow> closed_at j (subs (forward_sync i ns s))"
  by (induction ns arbitrary: s) (simp_all add: closed_at_forward)

lemma closed_at_execAndForward:
  "closed_at j (subs s) \<Longrightarrow> closed_at j (subs (execAndForward E s a))"
  by (simp add: execAndForward_def Let_def closed_at_forward_sync closed_at_append)

lemma closed_at_fire: "closed_at j (subs s) \<Longrightarrow> closed_at j (subs (fire i s))"
  by (simp add: fire_def closed_at_forward closed_at_pending_update split: list.splits)

lemma closed_at_always_subscribe:
  "closed_at j (subs s) \<Longrightarrow> closed_at j (subs (always_subscribe E v0 s))"
  by (simp add: always_subscribe_def Let_def closed_at_execAndForward)

lemma fire_closed: "closed_at i (subs s) \<Longrightarrow> fire i s = s"
  by (simp add: fire_def closed_at_not_open)

lemma forward_sync_closed: "\<not> is_open i (subs s) \<Longrightarrow> forward_sync i ns s = s"
  by (cases ns) simp_all

lemma not_open_close [simp]: "\<not> is_open i (close i ss)"
  by (simp add: is_open_def close_def)

lemma fire_Error:
  "is_open i (subs s) \<Longrightarrow> pending (subs s ! i) = Error err # rest \<Longrightarrow>
   subject (fire i s) = subject s \<and> closed_at i (subs (fire i s))"
  by (simp add: fire_def is_open_def closed_at_close_self)

lemma execAndForward_Error:
  "sync (E (length (subs s)) a) = Error err # rest \<Longrightarrow>
   subject (execAndForward E s a) = subject s
   \<and> closed_at (length (subs s)) (subs (execAndForward E s a))"
  by (simp add: execAndForward_def Let_def forward_sync_closed closed_at_close_self)
     (simp add: is_open_def)

text \<open>
  Once the subscription of an invocation is closed, what its production still sends
  changes nothing, in any of the three constructors.
\<close>

lemma once_run_skips_closed:
  "closed_at i (subs s) \<Longrightarrow> once_run evs s = once_run (filter (\<lambda>e. e \<noteq> OnceFire i) evs) s"
proof (induction evs arbitrary: s)
  case Nil
  then show ?case by simp
next
  case (Cons e evs)
  show ?case
  proof (cases e)
    case OnceAttach
    with Cons show ?thesis by (simp add: once_run_def)
  next
    case (OnceFire j)
    with Cons show ?thesis
      by (cases "j = i") (simp_all add: once_run_def fire_closed closed_at_fire)
  qed
qed

lemma ctl_run_skips_closed:
  "closed_at i (subs s) \<Longrightarrow> ctl_run E evs s = ctl_run E (filter (\<lambda>e. e \<noteq> CtlFire i) evs) s"
proof (induction evs arbitrary: s)
  case Nil
  then show ?case by simp
next
  case (Cons e evs)
  show ?case
  proof (cases e)
    case CtlAttach
    with Cons show ?thesis by (simp add: ctl_run_def)
  next
    case (CtlTrigger a)
    with Cons show ?thesis by (simp add: ctl_run_def closed_at_execAndForward)
  next
    case (CtlFire j)
    with Cons show ?thesis
      by (cases "j = i") (simp_all add: ctl_run_def fire_closed closed_at_fire)
  qed
qed

lemma alw_run_skips_closed:
  "closed_at i (subs s) \<Longrightarrow>
   alw_run E v0 evs s = alw_run E v0 (filter (\<lambda>e. e \<noteq> AlwFire i) evs) s"
proof (induction evs arbitrary: s)
  case Nil
  then show ?case by simp
next
  case (Cons e evs)
  show ?case
  proof (cases e)
    case AlwSubscribe
    with Cons show ?thesis by (simp add: alw_run_def closed_at_always_subscribe)
  next
    case (AlwFire j)
    with Cons show ?thesis
      by (cases "j = i") (simp_all add: alw_run_def fire_closed closed_at_fire)
  qed
qed

lemmas fwd_eval =
  execAndForward_def exec_of_def exec_later_def new_BehaviorSubject_def is_open_def
  fire_def bs_subscribe_def bs_next_def plain_observer_def getValue_def close_def calls_def

section \<open>The observers of execAlways\<close>

lemma extends_without_iff:
  "extends_without v0 r0 r \<longleftrightarrow> (\<exists>ys. r = r0 @ ys \<and> v0 \<notin> set ys)"
proof
  assume "extends_without v0 r0 r"
  then have "r = r0 @ drop (length r0) r \<and> v0 \<notin> set (drop (length r0) r)"
    by (metis append_take_drop_id extends_without_def)
  then show "\<exists>ys. r = r0 @ ys \<and> v0 \<notin> set ys" by blast
next
  assume "\<exists>ys. r = r0 @ ys \<and> v0 \<notin> set ys"
  then show "extends_without v0 r0 r" by (auto simp: extends_without_def)
qed

lemma extends_without_refl [simp]: "extends_without v0 r r"
  by (simp add: extends_without_def)

lemma extends_without_trans:
  "extends_without v0 r0 r1 \<Longrightarrow> extends_without v0 r1 r2 \<Longrightarrow> extends_without v0 r0 r2"
  by (auto simp: extends_without_iff)

lemma grows_refl [simp]: "grows v0 b b"
  by (simp add: grows_def)

lemma grows_trans: "grows v0 b0 b1 \<Longrightarrow> grows v0 b1 b2 \<Longrightarrow> grows v0 b0 b2"
  unfolding grows_def
  by (meson extends_without_trans le_trans less_le_trans)

lemma observer_next_distinct:
  "pipe ob = DistinctSkip v0 \<Longrightarrow>
   pipe (observer_next v ob) = DistinctSkip v0 \<and> key (observer_next v ob) = Some v
   \<and> extends_without v0 (received ob) (received (observer_next v ob))"
  by (simp add: extends_without_def)

lemma observer_next_same_key:
  "pipe ob = DistinctSkip v0 \<Longrightarrow> key ob = Some v \<Longrightarrow> observer_next v ob = ob"
  by simp

lemma alw_inv_bs_next: "alw_inv v0 b \<Longrightarrow> alw_inv v0 (bs_next v b)"
  using observer_next_distinct
  by (auto simp: alw_inv_def bs_next_def list_all_iff simp del: observer_next.simps)

lemma grows_bs_next: "alw_inv v0 b \<Longrightarrow> grows v0 b (bs_next v b)"
  using observer_next_distinct
  by (auto simp: alw_inv_def bs_next_def grows_def list_all_length simp del: observer_next.simps)

lemma bs_next_cur: "alw_inv v0 b \<Longrightarrow> bs_next (cur b) b = b"
proof -
  assume "alw_inv v0 b"
  then have "map (observer_next (cur b)) (observers b) = observers b"
    using observer_next_same_key
    by (intro map_idI) (auto simp: alw_inv_def list_all_iff simp del: observer_next.simps)
  then show ?thesis by (simp add: bs_next_def)
qed

lemma alw_inv_bs_subscribe:
  "alw_inv v0 b \<Longrightarrow>
   alw_inv v0 (bs_subscribe \<lparr>pipe = DistinctSkip v0, key = None, received = r\<rparr> b)"
  by (simp add: alw_inv_def bs_subscribe_def)

lemma grows_bs_subscribe: "grows v0 b (bs_subscribe ob b)"
  by (simp add: grows_def bs_subscribe_def nth_append)

lemma forward_alw:
  "alw_inv v0 (subject s) \<Longrightarrow>
   alw_inv v0 (subject (forward i n s)) \<and> grows v0 (subject s) (subject (forward i n s))"
  by (cases n) (simp_all add: alw_inv_bs_next grows_bs_next)

lemma forward_sync_alw:
  "alw_inv v0 (subject s) \<Longrightarrow>
   alw_inv v0 (subject (forward_sync i ns s))
   \<and> grows v0 (subject s) (subject (forward_sync i ns s))"
proof (induction ns arbitrary: s)
  case Nil
  then show ?case by simp
next
  case (Cons n ns)
  show ?case
  proof (cases "is_open i (subs s)")
    case True
    from forward_alw [OF Cons.prems]
    have a: "alw_inv v0 (subject (forward i n s))"
      and g: "grows v0 (subject s) (subject (forward i n s))" by simp_all
    from Cons.IH [OF a] g True show ?thesis
      by (auto intro: grows_trans)
  next
    case False
    with Cons.prems show ?thesis by simp
  qed
qed

lemma execAndForward_alw:
  "alw_inv v0 (subject s) \<Longrightarrow>
   alw_inv v0 (subject (execAndForward E s a))
   \<and> grows v0 (subject s) (subject (execAndForward E s a))"
  using forward_sync_alw [of v0 "s\<lparr>subs := subs s @ [\<lparr>args = a,
      pending = async (E (length (subs s)) a), closed = False\<rparr>]\<rparr>"
      "length (subs s)" "sync (E (length (subs s)) a)"]
  by (simp add: execAndForward_def Let_def)

lemma fire_alw:
  "alw_inv v0 (subject s) \<Longrightarrow>
   alw_inv v0 (subject (fire i s)) \<and> grows v0 (subject s) (subject (fire i s))"
proof (cases "is_open i (subs s)")
  case True
  assume inv: "alw_inv v0 (subject s)"
  show ?thesis
  proof (cases "pending (subs s ! i)")
    case Nil
    with inv True show ?thesis by (simp add: fire_def)
  next
    case (Cons n ns)
    with inv True
      forward_alw [of v0 "s\<lparr>subs := (subs s)[i := (subs s ! i)\<lparr>pending := ns\<rparr>]\<rparr>" i n]
    show ?thesis by (simp add: fire_def)
  qed
next
  case False
  assume "alw_inv v0 (subject s)"
  with False show ?thesis by (simp add: fire_def)
qed

lemma always_subscribe_alw:
  "alw_inv v0 (subject s) \<Longrightarrow>
   alw_inv v0 (subject (always_subscribe E v0 s))
   \<and> grows v0 (subject s) (subject (always_subscribe E v0 s))"
proof -
  assume inv: "alw_inv v0 (subject s)"
  from execAndForward_alw [OF inv, of E Undefined]
  have a: "alw_inv v0 (subject (execAndForward E s Undefined))"
    and g: "grows v0 (subject s) (subject (execAndForward E s Undefined))" by simp_all
  show ?thesis
    using alw_inv_bs_subscribe [OF a] grows_trans [OF g grows_bs_subscribe]
    by (simp add: always_subscribe_def Let_def)
qed

lemma alw_step_alw:
  "alw_inv v0 (subject s) \<Longrightarrow>
   alw_inv v0 (subject (alw_step E v0 s e))
   \<and> grows v0 (subject s) (subject (alw_step E v0 s e))"
  by (cases e) (simp_all add: always_subscribe_alw fire_alw)

lemma alw_run_alw:
  "alw_inv v0 (subject s) \<Longrightarrow>
   alw_inv v0 (subject (alw_run E v0 evs s))
   \<and> grows v0 (subject s) (subject (alw_run E v0 evs s))"
proof (induction evs arbitrary: s)
  case Nil
  then show ?case by (simp add: alw_run_def)
next
  case (Cons e evs)
  from alw_step_alw [OF Cons.prems, of E e]
  have a: "alw_inv v0 (subject (alw_step E v0 s e))"
    and g: "grows v0 (subject s) (subject (alw_step E v0 s e))" by simp_all
  from Cons.IH [OF a] g show ?case
    by (auto simp: alw_run_def intro: grows_trans)
qed

lemma alw_inv_init: "alw_inv v0 (subject (execAlways E v0))"
  by (simp add: alw_inv_def execAlways_def new_BehaviorSubject_def)

lemma alw_inv_reachable: "alw_inv v0 (subject (alw_run E v0 evs (execAlways E v0)))"
  using alw_run_alw [OF alw_inv_init] by blast

lemma calls_always_subscribe [simp]:
  "calls (always_subscribe E v0 s) = calls s @ [Undefined]"
  by (simp add: always_subscribe_def Let_def)

lemma calls_alw_run:
  "calls (alw_run E v0 evs s) = calls s @ replicate (count_list evs AlwSubscribe) Undefined"
proof (induction evs arbitrary: s)
  case Nil
  then show ?case by (simp add: alw_run_def)
next
  case (Cons e evs)
  then show ?case
    by (cases e) (simp_all add: alw_run_def replicate_app_Cons_same)
qed

lemma length_observers_bs_next [simp]: "length (observers (bs_next v b)) = length (observers b)"
  by (simp add: bs_next_def)

lemma length_observers_forward [simp]:
  "length (observers (subject (forward i n s))) = length (observers (subject s))"
  by (cases n) simp_all

lemma length_observers_forward_sync [simp]:
  "length (observers (subject (forward_sync i ns s))) = length (observers (subject s))"
  by (induction ns arbitrary: s) simp_all

lemma length_observers_execAndForward [simp]:
  "length (observers (subject (execAndForward E s a))) = length (observers (subject s))"
  by (simp add: execAndForward_def Let_def)

lemma length_observers_fire [simp]:
  "length (observers (subject (fire i s))) = length (observers (subject s))"
  by (simp add: fire_def split: list.splits)

lemma length_observers_always_subscribe [simp]:
  "length (observers (subject (always_subscribe E v0 s))) = Suc (length (observers (subject s)))"
  by (simp add: always_subscribe_def Let_def bs_subscribe_def)

lemma length_observers_alw_run:
  "length (observers (subject (alw_run E v0 evs s))) =
     length (observers (subject s)) + count_list evs AlwSubscribe"
proof (induction evs arbitrary: s)
  case Nil
  then show ?case by (simp add: alw_run_def)
next
  case (Cons e evs)
  then show ?case by (cases e) (simp_all add: alw_run_def)
qed

text \<open>The observer that a subscription adds, when the shared value is still \<open>v0\<close>.\<close>

lemma always_subscribe_new_observer:
  assumes "getValue (subject s) = v0"
  shows "count_list (received (observers (subject (always_subscribe E v0 s))
           ! length (observers (subject s)))) v0 = 1"
  using assms
  by (simp add: always_subscribe_def Let_def bs_subscribe_def nth_append)

lemma count_list_extends:
  "extends_without v0 r0 r \<Longrightarrow> count_list r v0 = count_list r0 v0"
  by (auto simp: extends_without_iff count_list_0_iff)

lemmas alw_eval = alw_run_def always_subscribe_def execAlways_def exec_twice_def fwd_eval

section \<open>execOnce: initial value, first emission, one invocation\<close>

text \<open>
  C4, as the claim states it, fails: it promises the value \<open>v0\<close> immediately after
  construction for every executor. With the executor \<open>() => of(1)\<close>, whose production
  emits inside \<open>subscribe\<close>, the container returned by \<open>execOnce\<close> already holds 1.
\<close>

theorem execOnce_initial_value_counterexample:
  "getValue (subject (execOnce (exec_of (Num 1)) (Num 0))) \<noteq> Num 0"
  by (simp add: execOnce_def execAndForward_def exec_of_def new_BehaviorSubject_def
      is_open_def)

text \<open>
  C4, amended: when the production of \<open>E\<close> emits no value synchronously at
  subscription, the value of the container returned by \<open>execOnce(E, v0)\<close> is \<open>v0\<close>
  immediately after construction; whenever the production of the one invocation then
  emits \<open>x\<close>, the value of the container is \<open>x\<close>; and whatever subscribers attach and
  whatever the production sends, the executor has been invoked exactly once, with no
  arguments.
\<close>

theorem execOnce_value_and_single_call:
  "(list_all (\<lambda>n. \<not> is_Next n) (sync (E 0 Undefined)) \<longrightarrow>
      getValue (subject (execOnce E v0)) = v0)
   \<and> (\<forall>evs. is_open 0 (subs (once_run evs (execOnce E v0)))
          \<and> pending (subs (once_run evs (execOnce E v0)) ! 0) = Next x # ns \<longrightarrow>
        getValue (subject (once_step (once_run evs (execOnce E v0)) (OnceFire 0))) = x)
   \<and> (\<forall>evs. calls (once_run evs (execOnce E v0)) = [Undefined])"
proof (intro conjI allI impI)
  assume "list_all (\<lambda>n. \<not> is_Next n) (sync (E 0 Undefined))"
  then show "getValue (subject (execOnce E v0)) = v0"
    by (simp add: execOnce_def execAndForward_def Let_def subject_forward_sync_no_Next
        new_BehaviorSubject_def getValue_def)
next
  fix evs
  assume "is_open 0 (subs (once_run evs (execOnce E v0)))
          \<and> pending (subs (once_run evs (execOnce E v0)) ! 0) = Next x # ns"
  then show "getValue (subject (once_step (once_run evs (execOnce E v0)) (OnceFire 0))) = x"
    by (simp add: fire_Next)
next
  fix evs
  show "calls (once_run evs (execOnce E v0)) = [Undefined]"
    by (simp add: execOnce_def) (simp add: calls_def)
qed

theorem execOnce_value_and_single_call_witness:
  "getValue (subject (execOnce (exec_later (Num 7)) (Num 0))) = Num 0
   \<and> getValue (subject (once_run [OnceAttach, OnceFire 0, OnceAttach]
        (execOnce (exec_later (Num 7)) (Num 0)))) = Num 7
   \<and> map received (observers (subject (once_run [OnceAttach, OnceFire 0, OnceAttach]
        (execOnce (exec_later (Num 7)) (Num 0))))) = [[Num 0, Num 7], [Num 7]]
   \<and> calls (once_run [OnceAttach, OnceFire 0, OnceAttach, OnceFire 0]
        (execOnce (exec_later (Num 7)) (Num 0))) = [Undefined]"
  using execOnce_value_and_single_call [of "exec_later (Num 7)" "Num 0" "Num 7" "[Complete]"]
  by (simp add: execOnce_def once_run_def fwd_eval)

section \<open>execControlled: when the executor is invoked\<close>

text \<open>
  C7: the calls of the executor made by \<open>execControlled\<close> and afterwards are, in order,
  those that \<open>control\<close> makes through the trigger while it runs, then one call with no
  arguments made during construction unless \<open>executeImmediately\<close> is false, then one
  call for each later use of the trigger. So when \<open>control\<close> does not use the trigger,
  \<open>executeImmediately = true\<close> gives exactly one call, with no arguments, made before the
  container is returned, and \<open>executeImmediately = false\<close> gives no call until the
  trigger is used.
\<close>

theorem execControlled_calls:
  "calls (ctl_run E evs (execControlled E control v0 executeImmediately)) =
     control @ (if executeImmediately = Some False then [] else [Undefined]) @ triggers evs"
  by (cases executeImmediately) (simp_all add: execControlled_def Let_def, simp_all add: calls_def)

theorem execControlled_calls_witness:
  "calls (execControlled (exec_later (Num 1)) [] (Num 0) (Some True)) = [Undefined]
   \<and> calls (ctl_run (exec_later (Num 1)) [CtlAttach, CtlFire 0]
        (execControlled (exec_later (Num 1)) [] (Num 0) (Some False))) = []
   \<and> calls (ctl_run (exec_later (Num 1)) [CtlAttach, CtlTrigger (Num 5)]
        (execControlled (exec_later (Num 1)) [Num 3] (Num 0) None))
      = [Num 3, Undefined, Num 5]"
  using execControlled_calls [of "exec_later (Num 1)" "[]" "[]" "Num 0" "Some True"]
    execControlled_calls [of "exec_later (Num 1)" "[CtlAttach, CtlFire 0]" "[]" "Num 0" "Some False"]
    execControlled_calls [of "exec_later (Num 1)" "[CtlAttach, CtlTrigger (Num 5)]" "[Num 3]" "Num 0" None]
  by (simp add: ctl_run_def)

section \<open>A failing production under execAndForward\<close>

lemma sync_forwarded_until_Error [simp]:
  "sync_forwarded (map Next vs @ Error err # rest) = vs"
  by (induction vs) simp_all

lemma is_open_forward_Next [simp]: "is_open i (subs (forward j (Next v) s)) = is_open i (subs s)"
  by simp

text \<open>
  What a subscription made by \<open>execAndForward\<close> hands to the subject while it
  subscribes: the values emitted before the first failure or completion, in order, and
  nothing else.
\<close>

lemma subject_forward_sync:
  "is_open i (subs s) \<Longrightarrow>
   subject (forward_sync i ns s)
     = foldl (\<lambda>b v. bs_next v b) (subject s) (sync_forwarded ns)"
proof (induction ns arbitrary: s)
  case Nil
  then show ?case by simp
next
  case (Cons n ns)
  show ?case
  proof (cases n)
    case (Next v)
    from Cons.prems have "is_open i (subs (forward i (Next v) s))" by simp
    from Cons.IH [OF this] Cons.prems Next show ?thesis by simp
  next
    case (Error e)
    with Cons.prems show ?thesis by (simp add: forward_sync_closed)
  next
    case Complete
    with Cons.prems show ?thesis by (simp add: forward_sync_closed)
  qed
qed

lemma subject_execAndForward:
  "subject (execAndForward E s a)
     = foldl (\<lambda>b v. bs_next v b) (subject s) (sync_forwarded (sync (E (length (subs s)) a)))"
  by (simp add: execAndForward_def Let_def subject_forward_sync is_open_def)

lemma closed_at_forward_sync_Error:
  "is_open i (subs s) \<Longrightarrow>
   closed_at i (subs (forward_sync i (map Next vs @ Error err # rest) s))"
proof (induction vs arbitrary: s)
  case Nil
  then have "forward_sync i (Error err # rest) s = s\<lparr>subs := close i (subs s)\<rparr>"
    by (simp add: forward_sync_closed)
  moreover from Nil have "i < length (subs s)"
    by (simp add: is_open_def)
  ultimately show ?case
    by (simp add: closed_at_close_self)
next
  case (Cons v vs)
  from Cons.prems have "is_open i (subs (forward i (Next v) s))" by simp
  from Cons.IH [OF this] Cons.prems show ?case by simp
qed

lemma execAndForward_raises:
  assumes "sync (E (length (subs s)) a) = map Next vs @ Error err # rest"
  shows "subject (execAndForward E s a) = foldl (\<lambda>b v. bs_next v b) (subject s) vs"
    and "closed_at (length (subs s)) (subs (execAndForward E s a))"
proof -
  show "subject (execAndForward E s a) = foldl (\<lambda>b v. bs_next v b) (subject s) vs"
    by (simp add: subject_execAndForward assms)
  have "is_open (length (subs s))
      (subs (s\<lparr>subs := subs s @ [\<lparr>args = a, pending = async (E (length (subs s)) a),
        closed = False\<rparr>]\<rparr>))"
    by (simp add: is_open_def)
  from closed_at_forward_sync_Error [OF this, of vs err rest]
  show "closed_at (length (subs s)) (subs (execAndForward E s a))"
    by (simp add: execAndForward_def Let_def assms)
qed

text \<open>
  C8: in \<open>execAlways\<close>, \<open>execOnce\<close> and \<open>execControlled\<close> a production that raises is
  not caught. What an invocation hands to the subject while it subscribes is exactly
  the values its production emits before its first failure or completion. So when the
  production raises at subscription, after emitting the values \<open>vs\<close> or none, the
  subject has been handed \<open>vs\<close> and nothing else: no error value, and nothing the
  production sends after the failure. When it raises later (at a \<open>fire\<close>), the subject
  is left exactly as it was. In both cases every run of each of the three constructors
  is from then on the run without the notifications of that invocation, so nothing it
  still sends reaches the container.
\<close>

theorem forward_failure_not_caught:
  "subject (execAndForward E s a)
     = foldl (\<lambda>b v. bs_next v b) (subject s) (sync_forwarded (sync (E (length (subs s)) a)))
   \<and> (sync (E (length (subs s)) a) = map Next vs @ Error err # rest \<longrightarrow>
      subject (execAndForward E s a) = foldl (\<lambda>b v. bs_next v b) (subject s) vs
      \<and> (\<forall>evs. once_run evs (execAndForward E s a) =
            once_run (filter (\<lambda>e. e \<noteq> OnceFire (length (subs s))) evs) (execAndForward E s a))
      \<and> (\<forall>evs. ctl_run E evs (execAndForward E s a) =
            ctl_run E (filter (\<lambda>e. e \<noteq> CtlFire (length (subs s))) evs) (execAndForward E s a))
      \<and> (\<forall>evs. alw_run E v0 evs (execAndForward E s a) =
            alw_run E v0 (filter (\<lambda>e. e \<noteq> AlwFire (length (subs s))) evs)
              (execAndForward E s a)))
   \<and> (is_open i (subs s) \<and> pending (subs s ! i) = Error err # rest \<longrightarrow>
      subject (fire i s) = subject s
      \<and> (\<forall>evs. once_run evs (fire i s) =
            once_run (filter (\<lambda>e. e \<noteq> OnceFire i) evs) (fire i s))
      \<and> (\<forall>evs. ctl_run E evs (fire i s) =
            ctl_run E (filter (\<lambda>e. e \<noteq> CtlFire i) evs) (fire i s))
      \<and> (\<forall>evs. alw_run E v0 evs (fire i s) =
            alw_run E v0 (filter (\<lambda>e. e \<noteq> AlwFire i) evs) (fire i s)))"
proof (intro conjI impI)
  show "subject (execAndForward E s a)
     = foldl (\<lambda>b v. bs_next v b) (subject s) (sync_forwarded (sync (E (length (subs s)) a)))"
    by (rule subject_execAndForward)
next
  assume h: "sync (E (length (subs s)) a) = map Next vs @ Error err # rest"
  note r = execAndForward_raises [of E s a vs err rest, OF h]
  note c = r(2)
  show "subject (execAndForward E s a) = foldl (\<lambda>b v. bs_next v b) (subject s) vs"
    by (rule r(1))
  show "\<forall>evs. once_run evs (execAndForward E s a) =
          once_run (filter (\<lambda>e. e \<noteq> OnceFire (length (subs s))) evs) (execAndForward E s a)"
    using once_run_skips_closed [OF c] by blast
  show "\<forall>evs. ctl_run E evs (execAndForward E s a) =
          ctl_run E (filter (\<lambda>e. e \<noteq> CtlFire (length (subs s))) evs) (execAndForward E s a)"
    using ctl_run_skips_closed [OF c] by blast
  show "\<forall>evs. alw_run E v0 evs (execAndForward E s a) =
          alw_run E v0 (filter (\<lambda>e. e \<noteq> AlwFire (length (subs s))) evs)
            (execAndForward E s a)"
    using alw_run_skips_closed [OF c] by blast
next
  assume h: "is_open i (subs s) \<and> pending (subs s ! i) = Error err # rest"
  then have c: "closed_at i (subs (fire i s))" and v: "subject (fire i s) = subject s"
    by (simp_all add: fire_Error)
  show "subject (fire i s) = subject s"
    by (rule v)
  show "\<forall>evs. once_run evs (fire i s) = once_run (filter (\<lambda>e. e \<noteq> OnceFire i) evs) (fire i s)"
    using once_run_skips_closed [OF c] by blast
  show "\<forall>evs. ctl_run E evs (fire i s) =
          ctl_run E (filter (\<lambda>e. e \<noteq> CtlFire i) evs) (fire i s)"
    using ctl_run_skips_closed [OF c] by blast
  show "\<forall>evs. alw_run E v0 evs (fire i s) =
          alw_run E v0 (filter (\<lambda>e. e \<noteq> AlwFire i) evs) (fire i s)"
    using alw_run_skips_closed [OF c] by blast
qed

text \<open>
  The witness: \<open>execOnce\<close> on a production that emits 1 and then raises. After the
  emission the subscription is open with the failure pending; the failure leaves the
  value 1 and the observer's log in place, and the value 2 sent afterwards is not
  forwarded. A further invocation emits 1, raises and sends 2, all at subscription:
  the subject is handed the 1 and nothing more, and what the production of that
  invocation sends later is dropped from every run.
\<close>

theorem forward_failure_not_caught_witness:
  "is_open 0 (subs (once_run [OnceAttach, OnceFire 0]
      (execOnce (exec_fails (Num 1) (Str ''bad'') (Num 2)) (Num 0))))
   \<and> pending (subs (once_run [OnceAttach, OnceFire 0]
        (execOnce (exec_fails (Num 1) (Str ''bad'') (Num 2)) (Num 0))) ! 0)
      = [Error (Str ''bad''), Next (Num 2)]
   \<and> sync (exec_fails (Num 1) (Str ''bad'') (Num 2) 1 Undefined)
      = [Next (Num 1), Error (Str ''bad''), Next (Num 2)]
   \<and> subject (once_run [OnceAttach, OnceFire 0, OnceFire 0, OnceFire 0]
        (execOnce (exec_fails (Num 1) (Str ''bad'') (Num 2)) (Num 0)))
      = \<lparr>cur = Num 1,
         observers = [\<lparr>pipe = Direct, key = None, received = [Num 0, Num 1]\<rparr>]\<rparr>
   \<and> subject (execAndForward (exec_fails (Num 1) (Str ''bad'') (Num 2))
        (once_run [OnceAttach, OnceFire 0]
          (execOnce (exec_fails (Num 1) (Str ''bad'') (Num 2)) (Num 0))) Undefined)
      = \<lparr>cur = Num 1,
         observers = [\<lparr>pipe = Direct, key = None, received = [Num 0, Num 1, Num 1]\<rparr>]\<rparr>
   \<and> once_run [OnceFire 1]
        (execAndForward (exec_fails (Num 1) (Str ''bad'') (Num 2))
          (once_run [OnceAttach, OnceFire 0]
            (execOnce (exec_fails (Num 1) (Str ''bad'') (Num 2)) (Num 0))) Undefined)
      = execAndForward (exec_fails (Num 1) (Str ''bad'') (Num 2))
          (once_run [OnceAttach, OnceFire 0]
            (execOnce (exec_fails (Num 1) (Str ''bad'') (Num 2)) (Num 0))) Undefined"
proof -
  let ?E = "exec_fails (Num 1) (Str ''bad'') (Num 2)"
  let ?s = "once_run [OnceAttach, OnceFire 0] (execOnce ?E (Num 0))"
  have s: "?s = \<lparr>subject = \<lparr>cur = Num 1,
               observers = [\<lparr>pipe = Direct, key = None, received = [Num 0, Num 1]\<rparr>]\<rparr>,
             subs = [\<lparr>args = Undefined, pending = [Error (Str ''bad''), Next (Num 2)],
               closed = False\<rparr>]\<rparr>"
    by (simp add: execOnce_def once_run_def exec_fails_def fwd_eval)
  have l: "length (subs ?s) = 1"
    by (simp add: s)
  have h1: "sync (?E (length (subs ?s)) Undefined)
      = map Next [Num 1] @ Error (Str ''bad'') # [Next (Num 2)]"
    by (simp add: s exec_fails_def)
  have h2: "is_open 0 (subs ?s) \<and> pending (subs ?s ! 0) = Error (Str ''bad'') # [Next (Num 2)]"
    by (simp add: s is_open_def)
  note t = forward_failure_not_caught [where E = ?E and s = ?s and a = Undefined
      and vs = "[Num 1]" and err = "Str ''bad''" and rest = "[Next (Num 2)]"
      and ?v0.0 = "Num 0" and i = 0]
  note t1 = t [THEN conjunct2, THEN conjunct1, THEN mp, OF h1]
  have a: "subject (execAndForward ?E ?s Undefined)
      = foldl (\<lambda>b v. bs_next v b) (subject ?s) [Num 1]"
    using t1 by (rule conjunct1)
  have "once_run [OnceFire 1] (execAndForward ?E ?s Undefined) =
          once_run (filter (\<lambda>e. e \<noteq> OnceFire (length (subs ?s))) [OnceFire 1])
            (execAndForward ?E ?s Undefined)"
    using t1 [THEN conjunct2, THEN conjunct1] by (rule spec)
  then have a': "once_run [OnceFire 1] (execAndForward ?E ?s Undefined)
      = execAndForward ?E ?s Undefined"
    by (simp only: l) (simp add: once_run_def)
  note t2 = t [THEN conjunct2, THEN conjunct2, THEN mp, OF h2]
  have b: "subject (fire 0 ?s) = subject ?s"
    using t2 by (rule conjunct1)
  have "once_run [OnceFire 0] (fire 0 ?s) =
          once_run (filter (\<lambda>e. e \<noteq> OnceFire 0) [OnceFire 0]) (fire 0 ?s)"
    using t2 [THEN conjunct2, THEN conjunct1] by (rule spec)
  then have c: "once_run [OnceFire 0] (fire 0 ?s) = fire 0 ?s"
    by (simp add: once_run_def)
  have d: "once_run [OnceAttach, OnceFire 0, OnceFire 0, OnceFire 0] (execOnce ?E (Num 0))
      = once_run [OnceFire 0] (fire 0 ?s)"
    by (simp add: once_run_def)
  have e: "subject ?s = \<lparr>cur = Num 1,
         observers = [\<lparr>pipe = Direct, key = None, received = [Num 0, Num 1]\<rparr>]\<rparr>"
    by (simp add: s)
  have a2: "subject (execAndForward ?E ?s Undefined) = \<lparr>cur = Num 1,
         observers = [\<lparr>pipe = Direct, key = None, received = [Num 0, Num 1, Num 1]\<rparr>]\<rparr>"
    by (simp add: a e bs_next_def)
  show ?thesis
    using h2 a2 a' b c d e by (simp add: exec_fails_def)
qed

section \<open>execAlways: deliveries and invocations\<close>

text \<open>
  C5: take any state of the shared subject that subscriptions and emissions can lead
  to, in which the shared value is still \<open>v0\<close> (as it is before the executor has
  emitted). An observer that subscribes then is handed \<open>v0\<close> exactly once, whatever
  happens afterwards. Each subscription makes one more call of the executor, with no
  arguments; after N subscriptions there have been N calls and there are N observers,
  all on the one subject, and the pipeline of each holds the current shared value.
\<close>

theorem execAlways_initial_delivery_and_invocations:
  "(getValue (subject (alw_run E v0 evs0 (execAlways E v0))) = v0 \<longrightarrow>
      (\<forall>evs. count_list
         (received (observers (subject (alw_run E v0 evs
              (always_subscribe E v0 (alw_run E v0 evs0 (execAlways E v0)))))
            ! length (observers (subject (alw_run E v0 evs0 (execAlways E v0)))))) v0 = 1))
   \<and> calls (always_subscribe E v0 (alw_run E v0 evs0 (execAlways E v0)))
       = calls (alw_run E v0 evs0 (execAlways E v0)) @ [Undefined]
   \<and> calls (alw_run E v0 evs0 (execAlways E v0))
       = replicate (count_list evs0 AlwSubscribe) Undefined
   \<and> length (observers (subject (alw_run E v0 evs0 (execAlways E v0))))
       = count_list evs0 AlwSubscribe
   \<and> list_all (\<lambda>ob. key ob = Some (getValue (subject (alw_run E v0 evs0 (execAlways E v0)))))
        (observers (subject (alw_run E v0 evs0 (execAlways E v0))))"
proof (intro conjI impI allI)
  let ?s = "alw_run E v0 evs0 (execAlways E v0)"
  let ?n = "length (observers (subject ?s))"
  fix evs
  assume v: "getValue (subject ?s) = v0"
  have inv: "alw_inv v0 (subject (always_subscribe E v0 ?s))"
    using always_subscribe_alw [OF alw_inv_reachable] by blast
  from alw_run_alw [OF inv, of E evs]
  have "grows v0 (subject (always_subscribe E v0 ?s))
          (subject (alw_run E v0 evs (always_subscribe E v0 ?s)))"
    by simp
  then have "extends_without v0
      (received (observers (subject (always_subscribe E v0 ?s)) ! ?n))
      (received (observers (subject (alw_run E v0 evs (always_subscribe E v0 ?s))) ! ?n))"
    by (simp add: grows_def)
  from count_list_extends [OF this] always_subscribe_new_observer [OF v]
  show "count_list (received (observers
          (subject (alw_run E v0 evs (always_subscribe E v0 ?s))) ! ?n)) v0 = 1"
    by simp
next
  show "calls (always_subscribe E v0 (alw_run E v0 evs0 (execAlways E v0)))
       = calls (alw_run E v0 evs0 (execAlways E v0)) @ [Undefined]"
    by simp
next
  show "calls (alw_run E v0 evs0 (execAlways E v0))
       = replicate (count_list evs0 AlwSubscribe) Undefined"
    by (simp add: calls_alw_run) (simp add: calls_def execAlways_def)
next
  show "length (observers (subject (alw_run E v0 evs0 (execAlways E v0))))
       = count_list evs0 AlwSubscribe"
    by (simp add: length_observers_alw_run) (simp add: execAlways_def new_BehaviorSubject_def)
next
  show "list_all (\<lambda>ob. key ob = Some (getValue (subject (alw_run E v0 evs0 (execAlways E v0)))))
        (observers (subject (alw_run E v0 evs0 (execAlways E v0))))"
    using alw_inv_reachable [of v0 E evs0]
    by (simp add: alw_inv_def getValue_def list_all_iff)
qed

theorem execAlways_initial_delivery_and_invocations_witness:
  "getValue (subject (alw_run (exec_twice (Num 5)) (Num 0) [AlwSubscribe]
      (execAlways (exec_twice (Num 5)) (Num 0)))) = Num 0
   \<and> received (observers (subject (alw_run (exec_twice (Num 5)) (Num 0)
        [AlwFire 0, AlwFire 1, AlwFire 0]
        (always_subscribe (exec_twice (Num 5)) (Num 0)
          (alw_run (exec_twice (Num 5)) (Num 0) [AlwSubscribe]
            (execAlways (exec_twice (Num 5)) (Num 0)))))) ! 1) = [Num 0, Num 5]
   \<and> count_list (received (observers (subject (alw_run (exec_twice (Num 5)) (Num 0)
        [AlwFire 0, AlwFire 1, AlwFire 0]
        (always_subscribe (exec_twice (Num 5)) (Num 0)
          (alw_run (exec_twice (Num 5)) (Num 0) [AlwSubscribe]
            (execAlways (exec_twice (Num 5)) (Num 0)))))) ! 1)) (Num 0) = 1
   \<and> calls (always_subscribe (exec_twice (Num 5)) (Num 0)
          (alw_run (exec_twice (Num 5)) (Num 0) [AlwSubscribe]
            (execAlways (exec_twice (Num 5)) (Num 0)))) = [Undefined, Undefined]"
proof -
  let ?E = "exec_twice (Num 5)"
  let ?s = "alw_run ?E (Num 0) [AlwSubscribe] (execAlways ?E (Num 0))"
  note t = execAlways_initial_delivery_and_invocations [of ?E "Num 0" "[AlwSubscribe]"]
  have h: "getValue (subject ?s) = Num 0"
    by (simp add: alw_eval)
  have n: "length (observers (subject ?s)) = 1"
    by (simp add: alw_eval)
  have c: "count_list (received (observers (subject (alw_run ?E (Num 0)
        [AlwFire 0, AlwFire 1, AlwFire 0] (always_subscribe ?E (Num 0) ?s)))
          ! length (observers (subject ?s)))) (Num 0) = 1"
    using t [THEN conjunct1, THEN mp, OF h] by (rule spec)
  have r: "received (observers (subject (alw_run ?E (Num 0)
        [AlwFire 0, AlwFire 1, AlwFire 0] (always_subscribe ?E (Num 0) ?s))) ! 1)
      = [Num 0, Num 5]"
    by (simp add: alw_eval)
  have k: "calls (always_subscribe ?E (Num 0) ?s) = [Undefined, Undefined]"
    using t [THEN conjunct2, THEN conjunct1] by (simp add: calls_alw_run) (simp add: alw_eval)
  show ?thesis
    using h c r k by (simp only: n)
qed

text \<open>
  C6: in any state of \<open>execAlways(E, v0)\<close> that subscriptions and emissions can lead
  to, an emission equal to the current shared value changes nothing: no observer is
  handed anything. So of two consecutive equal emissions of a production the second is
  delivered to nobody. And whatever happens after a state, each observer's log is
  extended only by values different from \<open>v0\<close>.
\<close>

theorem execAlways_distinct_deliveries:
  "(is_open i (subs (alw_run E v0 evs0 (execAlways E v0)))
      \<and> pending (subs (alw_run E v0 evs0 (execAlways E v0)) ! i) = Next x # ns
      \<and> getValue (subject (alw_run E v0 evs0 (execAlways E v0))) = x \<longrightarrow>
      subject (fire i (alw_run E v0 evs0 (execAlways E v0)))
        = subject (alw_run E v0 evs0 (execAlways E v0)))
   \<and> (is_open i (subs (alw_run E v0 evs0 (execAlways E v0)))
      \<and> pending (subs (alw_run E v0 evs0 (execAlways E v0)) ! i) = Next x # Next x # ns \<longrightarrow>
      subject (fire i (fire i (alw_run E v0 evs0 (execAlways E v0))))
        = subject (fire i (alw_run E v0 evs0 (execAlways E v0))))
   \<and> (\<forall>n evs. n < length (observers (subject (alw_run E v0 evs0 (execAlways E v0)))) \<longrightarrow>
        extends_without v0
          (received (observers (subject (alw_run E v0 evs0 (execAlways E v0))) ! n))
          (received (observers (subject (alw_run E v0 evs
              (alw_run E v0 evs0 (execAlways E v0)))) ! n)))"
proof (intro conjI impI allI)
  let ?s = "alw_run E v0 evs0 (execAlways E v0)"
  have inv: "alw_inv v0 (subject ?s)"
    by (rule alw_inv_reachable)
  {
    assume h: "is_open i (subs ?s) \<and> pending (subs ?s ! i) = Next x # ns
      \<and> getValue (subject ?s) = x"
    then have "subject (fire i ?s) = bs_next (cur (subject ?s)) (subject ?s)"
      by (simp add: fire_Next getValue_def)
    then show "subject (fire i ?s) = subject ?s"
      by (simp add: bs_next_cur [OF inv])
  }
  {
    assume h: "is_open i (subs ?s) \<and> pending (subs ?s ! i) = Next x # Next x # ns"
    then have s1: "fire i ?s = ?s\<lparr>subs := (subs ?s)[i := (subs ?s ! i)\<lparr>pending := Next x # ns\<rparr>],
        subject := bs_next x (subject ?s)\<rparr>"
      by (simp add: fire_def)
    have inv1: "alw_inv v0 (bs_next x (subject ?s))"
      by (rule alw_inv_bs_next [OF inv])
    from h have "is_open i (subs (fire i ?s)) \<and> pending (subs (fire i ?s) ! i) = Next x # ns"
      by (simp add: s1 is_open_def)
    then have "subject (fire i (fire i ?s)) = bs_next x (subject (fire i ?s))"
      by (simp add: fire_Next)
    also have "\<dots> = subject (fire i ?s)"
      using bs_next_cur [OF inv1] by (simp add: s1) (simp add: bs_next_def)
    finally show "subject (fire i (fire i ?s)) = subject (fire i ?s)" .
  }
  {
    fix n evs
    assume n: "n < length (observers (subject ?s))"
    from alw_run_alw [OF inv, of E evs]
    have "grows v0 (subject ?s) (subject (alw_run E v0 evs ?s))" by simp
    with n show "extends_without v0 (received (observers (subject ?s) ! n))
          (received (observers (subject (alw_run E v0 evs ?s)) ! n))"
      by (simp add: grows_def)
  }
qed


theorem execAlways_distinct_deliveries_witness:
  "is_open 0 (subs (alw_run (exec_twice (Num 5)) (Num 0) [AlwSubscribe]
      (execAlways (exec_twice (Num 5)) (Num 0))))
   \<and> pending (subs (alw_run (exec_twice (Num 5)) (Num 0) [AlwSubscribe]
      (execAlways (exec_twice (Num 5)) (Num 0))) ! 0) = [Next (Num 5), Next (Num 5), Complete]
   \<and> map received (observers (subject (alw_run (exec_twice (Num 5)) (Num 0)
        [AlwSubscribe, AlwFire 0] (execAlways (exec_twice (Num 5)) (Num 0)))))
      = [[Num 0, Num 5]]
   \<and> subject (alw_run (exec_twice (Num 5)) (Num 0) [AlwSubscribe, AlwFire 0, AlwFire 0]
        (execAlways (exec_twice (Num 5)) (Num 0)))
      = subject (alw_run (exec_twice (Num 5)) (Num 0) [AlwSubscribe, AlwFire 0]
        (execAlways (exec_twice (Num 5)) (Num 0)))
   \<and> extends_without (Num 0) [Num 0]
        (received (observers (subject (alw_run (exec_twice (Num 5)) (Num 0)
          [AlwFire 0, AlwSubscribe, AlwFire 1]
          (alw_run (exec_twice (Num 5)) (Num 0) [AlwSubscribe]
            (execAlways (exec_twice (Num 5)) (Num 0))))) ! 0))"
proof -
  let ?E = "exec_twice (Num 5)"
  let ?s = "alw_run ?E (Num 0) [AlwSubscribe] (execAlways ?E (Num 0))"
  let ?s1 = "alw_run ?E (Num 0) [AlwSubscribe, AlwFire 0] (execAlways ?E (Num 0))"
  note t = execAlways_distinct_deliveries [of 0 ?E "Num 0" "[AlwSubscribe]" "Num 5" "[Complete]"]
  note t1 = execAlways_distinct_deliveries
    [of 0 ?E "Num 0" "[AlwSubscribe, AlwFire 0]" "Num 5" "[Complete]"]
  have h2: "is_open 0 (subs ?s) \<and> pending (subs ?s ! 0) = Next (Num 5) # Next (Num 5) # [Complete]"
    by (simp add: alw_eval)
  have h1: "is_open 0 (subs ?s1) \<and> pending (subs ?s1 ! 0) = Next (Num 5) # [Complete]
      \<and> getValue (subject ?s1) = Num 5"
    by (simp add: alw_eval)
  have h3: "0 < length (observers (subject ?s))"
    by (simp add: alw_eval)
  have a: "subject (fire 0 ?s1) = subject ?s1"
    using t1 [THEN conjunct1, THEN mp, OF h1] .
  have b: "subject (fire 0 (fire 0 ?s)) = subject (fire 0 ?s)"
    using t [THEN conjunct2, THEN conjunct1, THEN mp, OF h2] .
  have c: "extends_without (Num 0) (received (observers (subject ?s) ! 0))
      (received (observers (subject (alw_run ?E (Num 0) [AlwFire 0, AlwSubscribe, AlwFire 1] ?s))
        ! 0))"
    using t [THEN conjunct2, THEN conjunct2, THEN spec, THEN spec, THEN mp, OF h3] .
  have r0: "received (observers (subject ?s) ! 0) = [Num 0]"
    by (simp add: alw_eval)
  have r1: "map received (observers (subject ?s1)) = [[Num 0, Num 5]]"
    by (simp add: alw_eval)
  have e: "alw_run ?E (Num 0) [AlwSubscribe, AlwFire 0, AlwFire 0] (execAlways ?E (Num 0))
      = fire 0 ?s1"
    by (simp add: alw_run_def)
  show ?thesis
    using h2 a b c r1 by (simp only: e r0)
qed

section \<open>ExecSubject: the pipeline, field by field\<close>

lemma tap_fields [simp]:
  "self (tap v s) = self s"
  "execs (tap v s) = execs s"
  "innerSubscription (tap v s) = innerSubscription s"
  "allocated (tap v s) = allocated s"
  "loading_ch (tap v s) = map_option (bs_next (Bool False)) (loading_ch s)"
  "error_ch (tap v s) = (if instanceof_Error v then map_option (bs_next v) (error_ch s)
                         else error_ch s)"
  by (simp_all add: tap_def Let_def)

lemma pipeline_fields [simp]:
  "self (pipeline v s) = (if instanceof_Error v then self s else bs_next v (self s))"
  "execs (pipeline v s) = execs s"
  "innerSubscription (pipeline v s) = innerSubscription s"
  "allocated (pipeline v s) = allocated s"
  "loading_ch (pipeline v s) = map_option (bs_next (Bool False)) (loading_ch s)"
  "error_ch (pipeline v s) = (if instanceof_Error v then map_option (bs_next v) (error_ch s)
                              else error_ch s)"
  by (simp_all add: pipeline_def Let_def)

lemma instanceof_new_Error [simp]: "instanceof_Error (new_Error k err)"
  by (simp add: new_Error_def)

lemma performExec_Error_fields:
  "self (performExec i (Error err) s) = self s"
  "execs (performExec i (Error err) s) = close i (execs s)"
  "innerSubscription (performExec i (Error err) s) = innerSubscription s"
  "allocated (performExec i (Error err) s) = Suc (allocated s)"
  "loading_ch (performExec i (Error err) s) = map_option (bs_next (Bool False)) (loading_ch s)"
  "error_ch (performExec i (Error err) s)
     = map_option (bs_next (new_Error (allocated s) err)) (error_ch s)"
  by (simp_all add: Let_def)

lemma performExec_sync_closed:
  "\<not> is_open i (execs s) \<Longrightarrow> performExec_sync i ns s = s"
  by (cases ns) simp_all

lemma performExec_sync_Error:
  "is_open i (execs s) \<Longrightarrow>
   performExec_sync i (Error err # rest) s = performExec i (Error err) s"
  by (simp add: performExec_sync_closed Let_def del: performExec.simps)
     (simp add: performExec_sync_closed Let_def)

text \<open>The state in which \<open>switchMap\<close> subscribes to the production of a new invocation.\<close>

lemma exec_unfold:
  "exec E a s =
     (performExec_sync (length (execs s)) (sync (E (length (execs s)) a))
        (s\<lparr>loading_ch := map_option (bs_next (Bool True)) (loading_ch s),
           execs := (case innerSubscription s of None \<Rightarrow> execs s | Some j \<Rightarrow> close j (execs s))
              @ [\<lparr>args = a, pending = async (E (length (execs s)) a), closed = False\<rparr>]\<rparr>))
     \<lparr>innerSubscription := Some (length (execs s))\<rparr>"
  by (cases "innerSubscription s") (simp_all add: exec_def Let_def)

lemma is_open_last [simp]:
  "length ss = n \<Longrightarrow> is_open n (ss @ [\<lparr>args = a, pending = p, closed = False\<rparr>])"
  by (auto simp: is_open_def nth_append)

lemma length_case_close [simp]:
  "length (case x of None \<Rightarrow> ss | Some j \<Rightarrow> close j ss) = length ss"
  by (cases x) simp_all



lemma es_fire_unfold:
  "is_open i (execs s) \<Longrightarrow> pending (execs s ! i) = n # ns \<Longrightarrow>
   es_fire i s = performExec i n (s\<lparr>execs := (execs s)[i := (execs s ! i)\<lparr>pending := ns\<rparr>]\<rparr>)"
  by (simp add: es_fire_def)

lemma es_fire_Error:
  assumes "is_open i (execs s)" and "pending (execs s ! i) = Error err # ns"
  shows "self (es_fire i s) = self s"
    and "loading_ch (es_fire i s) = map_option (bs_next (Bool False)) (loading_ch s)"
    and "error_ch (es_fire i s) = map_option (bs_next (new_Error (allocated s) err)) (error_ch s)"
    and "allocated (es_fire i s) = Suc (allocated s)"
    and "closed_at i (execs (es_fire i s))"
  using assms
  by (simp_all add: es_fire_unfold performExec_Error_fields closed_at_close_self is_open_def
      del: performExec.simps)

lemma es_fire_Next:
  assumes "is_open i (execs s)" and "pending (execs s ! i) = Next v # ns"
  shows "self (es_fire i s) = (if instanceof_Error v then self s else bs_next v (self s))"
    and "loading_ch (es_fire i s) = map_option (bs_next (Bool False)) (loading_ch s)"
    and "error_ch (es_fire i s)
          = (if instanceof_Error v then map_option (bs_next v) (error_ch s) else error_ch s)"
    and "allocated (es_fire i s) = allocated s"
    and "is_open i (execs (es_fire i s))"
    and "pending (execs (es_fire i s) ! i) = ns"
  using assms
  by (simp_all add: es_fire_unfold is_open_def)

lemma exec_sync_Next_Complete:
  assumes "sync (E (length (execs s)) a) = [Next x, Complete]"
  shows "self (exec E a s) = (if instanceof_Error x then self s else bs_next x (self s))"
    and "error_ch (exec E a s)
          = (if instanceof_Error x then map_option (bs_next x) (error_ch s) else error_ch s)"
    and "loading_ch (exec E a s)
          = map_option (bs_next (Bool False) \<circ> bs_next (Bool True)) (loading_ch s)"
  using assms
  by (simp_all add: exec_unfold option.map_comp)

lemma new_Error_neq: "new_Error k err \<noteq> err"
proof (cases err)
  case (ErrorObj r m)
  have "size m < size (StringOf (ErrorObj r m))"
    by simp
  then have "StringOf (ErrorObj r m) \<noteq> m"
    by fastforce
  with ErrorObj show ?thesis
    by (simp add: new_Error_def)
qed (simp_all add: new_Error_def)

lemma is_open_pipeline [simp]: "is_open i (execs (pipeline v s)) = is_open i (execs s)"
  by simp

lemma loading_performExec_sync:
  "is_open i (execs s) \<Longrightarrow>
   loading_ch (performExec_sync i ns s)
     = map_option (bs_next (Bool False) ^^ sync_values ns) (loading_ch s)"
proof (induction ns arbitrary: s)
  case Nil
  then show ?case by (simp add: option.map_ident)
next
  case (Cons n ns)
  show ?case
  proof (cases n)
    case (Next v)
    from Cons.prems have "is_open i (execs (pipeline v s))" by simp
    from Cons.IH [OF this] Cons.prems Next show ?thesis
      by (simp add: option.map_comp funpow_swap1 comp_def)
  next
    case (Error e)
    with Cons.prems show ?thesis
      by (simp add: performExec_sync_Error performExec_Error_fields
          del: performExec.simps performExec_sync.simps)
  next
    case Complete
    with Cons.prems show ?thesis
      by (simp add: performExec_sync_closed option.map_ident)
  qed
qed

lemma loading_exec:
  "loading_ch (exec E a s)
     = map_option ((bs_next (Bool False) ^^ sync_values (sync (E (length (execs s)) a)))
         \<circ> bs_next (Bool True)) (loading_ch s)"
  by (simp add: exec_unfold loading_performExec_sync option.map_comp)

text \<open>No step of the object makes an \<open>Error\<close> object its public value.\<close>

lemma cur_bs_next [simp]: "cur (bs_next v b) = v"
  by (simp add: bs_next_def)

lemma cur_bs_subscribe [simp]: "cur (bs_subscribe ob b) = cur b"
  by (simp add: bs_subscribe_def)

lemma value_ok_performExec:
  "\<not> instanceof_Error (cur (self s)) \<Longrightarrow> \<not> instanceof_Error (cur (self (performExec i n s)))"
  by (cases n) (simp_all add: Let_def)

lemma value_ok_performExec_sync:
  "\<not> instanceof_Error (cur (self s)) \<Longrightarrow>
   \<not> instanceof_Error (cur (self (performExec_sync i ns s)))"
proof (induction ns arbitrary: s)
  case Nil
  then show ?case by simp
next
  case (Cons n ns)
  from Cons.IH [OF value_ok_performExec [OF Cons.prems]] Cons.prems
  show ?case by (simp del: performExec.simps)
qed

lemma value_ok_exec:
  "\<not> instanceof_Error (cur (self s)) \<Longrightarrow> \<not> instanceof_Error (cur (self (exec E a s)))"
  by (simp add: exec_unfold value_ok_performExec_sync)

lemma value_ok_es_fire:
  "\<not> instanceof_Error (cur (self s)) \<Longrightarrow> \<not> instanceof_Error (cur (self (es_fire i s)))"
  by (simp add: es_fire_def value_ok_performExec split: list.splits del: performExec.simps)

lemma value_ok_es_run:
  "\<not> instanceof_Error (cur (self s)) \<Longrightarrow>
   \<not> instanceof_Error (cur (self (es_run E evs s)))"
proof (induction evs arbitrary: s)
  case Nil
  then show ?case by (simp add: es_run_def)
next
  case (Cons e evs)
  have "\<not> instanceof_Error (cur (self (es_step E s e)))"
    using Cons.prems by (cases e) (simp_all add: value_ok_exec value_ok_es_fire)
  from Cons.IH [OF this] show ?case by (simp add: es_run_def)
qed

lemmas es_eval = ExecSubject_def es_run_def exec_def es_fire_def pipeline_def tap_def
  new_Error_def new_BehaviorSubject_def is_open_def bs_subscribe_def bs_next_def
  plain_observer_def getValue_def close_def Let_def


lemmas ch_eval = spec_loading_def spec_error_def log_def

section \<open>ExecSubject: a failing execution\<close>



section \<open>ExecSubject: the loading flag\<close>

text \<open>
  C3, as the claim states it, fails: it says that for a production that emits several
  values loading is not set to false before the production settles. The callback of
  \<open>tap\<close> runs at every value. With a production that emits 1, then 2, then completes,
  the flag is false after the first emission, while the subscription is still open and
  the second value and the completion are still to come.
\<close>

theorem loading_false_before_settled_counterexample:
  "map_option getValue (loading_ch (es_run (exec_two (Num 1) (Num 2)) [Exec Undefined, EsFire 0]
      (ExecSubject (exec_two (Num 1) (Num 2)) Undefined None
        (Some (new_BehaviorSubject (Bool False)))))) = Some (Bool False)
   \<and> is_open 0 (execs (es_run (exec_two (Num 1) (Num 2)) [Exec Undefined, EsFire 0]
      (ExecSubject (exec_two (Num 1) (Num 2)) Undefined None
        (Some (new_BehaviorSubject (Bool False))))))
   \<and> pending (execs (es_run (exec_two (Num 1) (Num 2)) [Exec Undefined, EsFire 0]
      (ExecSubject (exec_two (Num 1) (Num 2)) Undefined None
        (Some (new_BehaviorSubject (Bool False))))) ! 0) = [Next (Num 2), Complete]"
  by (simp add: es_eval exec_two_def)

text \<open>
  C3, amended: \<open>exec(args)\<close> sets the loading flag to true before anything else, and
  the flag is set to false each time a value of the execution reaches the pipeline,
  an emission or the caught failure; so for a production that emits several values it
  is set to false at the first emission, with the production still subscribed and
  the rest still pending. (What \<open>exec\<close> does to the channel is: true, then false once
  for each value delivered during subscription.)
\<close>

theorem loading_set_on_exec_cleared_on_each_value:
  "loading_ch (exec E a s)
     = map_option ((bs_next (Bool False) ^^ sync_values (sync (E (length (execs s)) a)))
         \<circ> bs_next (Bool True)) (loading_ch s)
   \<and> (is_open i (execs s) \<and> pending (execs s ! i) = Next v # ns \<longrightarrow>
        loading_ch (es_fire i s) = map_option (bs_next (Bool False)) (loading_ch s)
        \<and> is_open i (execs (es_fire i s)) \<and> pending (execs (es_fire i s) ! i) = ns)
   \<and> (is_open i (execs s) \<and> pending (execs s ! i) = Error err # ns \<longrightarrow>
        loading_ch (es_fire i s) = map_option (bs_next (Bool False)) (loading_ch s))"
  using loading_exec [of E a s] es_fire_Next [of i s v ns] es_fire_Error [of i s err ns]
  by simp

theorem loading_set_on_exec_cleared_on_each_value_witness:
  "log (loading_ch (exec (exec_two (Num 1) (Num 2)) Undefined
      (ExecSubject (exec_two (Num 1) (Num 2)) Undefined None (Some spec_loading))))
     = [[Bool False, Bool True]]
   \<and> log (loading_ch (es_fire 0 (exec (exec_two (Num 1) (Num 2)) Undefined
      (ExecSubject (exec_two (Num 1) (Num 2)) Undefined None (Some spec_loading)))))
     = [[Bool False, Bool True, Bool False]]
   \<and> is_open 0 (execs (es_fire 0 (exec (exec_two (Num 1) (Num 2)) Undefined
      (ExecSubject (exec_two (Num 1) (Num 2)) Undefined None (Some spec_loading)))))
   \<and> pending (execs (es_fire 0 (exec (exec_two (Num 1) (Num 2)) Undefined
      (ExecSubject (exec_two (Num 1) (Num 2)) Undefined None (Some spec_loading)))) ! 0)
     = [Next (Num 2), Complete]
   \<and> log (loading_ch (es_fire 0 (exec exec_spec_later (Num 0)
        (ExecSubject exec_spec_later Undefined None (Some spec_loading)))))
     = [[Bool False, Bool True, Bool False]]"
proof -
  let ?E = "exec_two (Num 1) (Num 2)"
  let ?s = "ExecSubject ?E Undefined None (Some spec_loading)"
  let ?s' = "ExecSubject exec_spec_later Undefined None (Some spec_loading)"
  note a = loading_set_on_exec_cleared_on_each_value [where E = ?E and a = Undefined
      and s = ?s]
  note b = loading_set_on_exec_cleared_on_each_value [where E = ?E and s = "exec ?E Undefined ?s"
      and i = 0 and v = "Num 1" and ns = "[Next (Num 2), Complete]"]
  note c = loading_set_on_exec_cleared_on_each_value [where E = exec_spec_later
      and s = "exec exec_spec_later (Num 0) ?s'" and i = 0 and err = "Str ''bad''" and ns = "[]"]
  have s1: "exec ?E Undefined ?s = \<lparr>self = \<lparr>cur = Undefined, observers = []\<rparr>,
      error_ch = None,
      loading_ch = Some \<lparr>cur = Bool True, observers =
        [\<lparr>pipe = Direct, key = None, received = [Bool False, Bool True]\<rparr>]\<rparr>,
      execs = [\<lparr>args = Undefined, pending = [Next (Num 1), Next (Num 2), Complete],
        closed = False\<rparr>],
      innerSubscription = Some 0, allocated = 0\<rparr>"
    by (simp add: es_eval ch_eval exec_two_def)
  have s2: "exec exec_spec_later (Num 0) ?s' = \<lparr>self = \<lparr>cur = Undefined, observers = []\<rparr>,
      error_ch = None,
      loading_ch = Some \<lparr>cur = Bool True, observers =
        [\<lparr>pipe = Direct, key = None, received = [Bool False, Bool True]\<rparr>]\<rparr>,
      execs = [\<lparr>args = Num 0, pending = [Error (Str ''bad'')], closed = False\<rparr>],
      innerSubscription = Some 0, allocated = 0\<rparr>"
    by (simp add: es_eval ch_eval exec_spec_later_def)
  have hb: "is_open 0 (execs (exec ?E Undefined ?s))
      \<and> pending (execs (exec ?E Undefined ?s) ! 0) = Next (Num 1) # [Next (Num 2), Complete]"
    by (simp add: s1 is_open_def)
  have hc: "is_open 0 (execs (exec exec_spec_later (Num 0) ?s'))
      \<and> pending (execs (exec exec_spec_later (Num 0) ?s') ! 0) = Error (Str ''bad'') # []"
    by (simp add: s2 is_open_def)
  note b2 = b [THEN conjunct2, THEN conjunct1, THEN mp, OF hb]
  note c3 = c [THEN conjunct2, THEN conjunct2, THEN mp, OF hc]
  have l1: "log (loading_ch (exec ?E Undefined ?s)) = [[Bool False, Bool True]]"
    by (simp add: s1 log_def)
  show ?thesis
    using l1 b2 c3
    by (simp add: s1 s2) (simp add: log_def bs_next_def)
qed

section \<open>ExecSubject: values that are Error objects\<close>

text \<open>
  C9: an emitted value that is an instance of \<open>Error\<close> leaves the object itself
  unchanged and is handed to the error channel, if there is one, while loading is set
  to false: the same three effects as a raised failure, whose value is the new
  \<open>Error\<close> made from what was raised. An emitted value that is not an instance of
  \<open>Error\<close> becomes the public value and leaves the error channel alone. The same holds
  for an emission at subscription. So if the public value is not an \<open>Error\<close> instance
  it never becomes one, whatever is executed and emitted.
\<close>

theorem Error_instance_routed_to_error_channel:
  "(is_open i (execs s) \<and> pending (execs s ! i) = Next v # ns \<and> instanceof_Error v \<longrightarrow>
      self (es_fire i s) = self s
      \<and> error_ch (es_fire i s) = map_option (bs_next v) (error_ch s)
      \<and> loading_ch (es_fire i s) = map_option (bs_next (Bool False)) (loading_ch s))
   \<and> (is_open i (execs s) \<and> pending (execs s ! i) = Error err # ns \<longrightarrow>
      self (es_fire i s) = self s
      \<and> error_ch (es_fire i s) = map_option (bs_next (new_Error (allocated s) err)) (error_ch s)
      \<and> loading_ch (es_fire i s) = map_option (bs_next (Bool False)) (loading_ch s))
   \<and> (is_open i (execs s) \<and> pending (execs s ! i) = Next v # ns \<and> \<not> instanceof_Error v \<longrightarrow>
      self (es_fire i s) = bs_next v (self s) \<and> error_ch (es_fire i s) = error_ch s)
   \<and> (sync (E (length (execs s)) a) = [Next v, Complete] \<and> instanceof_Error v \<longrightarrow>
      self (exec E a s) = self s \<and> error_ch (exec E a s) = map_option (bs_next v) (error_ch s))
   \<and> (\<not> instanceof_Error (getValue (self s)) \<longrightarrow>
      (\<forall>evs. \<not> instanceof_Error (getValue (self (es_run E evs s)))))"
proof (intro conjI impI allI)
  assume h: "sync (E (length (execs s)) a) = [Next v, Complete] \<and> instanceof_Error v"
  then show "self (exec E a s) = self s"
    and "error_ch (exec E a s) = map_option (bs_next v) (error_ch s)"
    using exec_sync_Next_Complete [of E s a v] by simp_all
next
  fix evs
  assume "\<not> instanceof_Error (getValue (self s))"
  then show "\<not> instanceof_Error (getValue (self (es_run E evs s)))"
    using value_ok_es_run [of s E evs] by (simp add: getValue_def)
qed (simp_all add: es_fire_Next es_fire_Error)

theorem Error_instance_routed_to_error_channel_witness:
  "instanceof_Error boom
   \<and> is_open 0 (execs (exec (exec_later boom) Undefined
        (ExecSubject (exec_later boom) (Num 7) (Some spec_error) (Some spec_loading))))
   \<and> pending (execs (exec (exec_later boom) Undefined
        (ExecSubject (exec_later boom) (Num 7) (Some spec_error) (Some spec_loading))) ! 0)
      = [Next boom, Complete]
   \<and> getValue (self (es_fire 0 (exec (exec_later boom) Undefined
        (ExecSubject (exec_later boom) (Num 7) (Some spec_error) (Some spec_loading))))) = Num 7
   \<and> log (error_ch (es_fire 0 (exec (exec_later boom) Undefined
        (ExecSubject (exec_later boom) (Num 7) (Some spec_error) (Some spec_loading)))))
      = [[Undefined, boom]]
   \<and> log (error_ch (es_fire 0 (exec exec_spec_later (Num 0)
        (ExecSubject exec_spec_later (Num 7) (Some spec_error) (Some spec_loading)))))
      = [[Undefined, ErrorObj (Wrapped 0) (StringOf (Str ''bad''))]]
   \<and> getValue (self (es_fire 0 (exec (exec_later (Num 5)) Undefined
        (ExecSubject (exec_later (Num 5)) (Num 7) (Some spec_error) (Some spec_loading))))) = Num 5
   \<and> log (error_ch (es_fire 0 (exec (exec_later (Num 5)) Undefined
        (ExecSubject (exec_later (Num 5)) (Num 7) (Some spec_error) (Some spec_loading)))))
      = [[Undefined]]
   \<and> getValue (self (exec (exec_of boom) Undefined
        (ExecSubject (exec_of boom) (Num 7) (Some spec_error) (Some spec_loading)))) = Num 7
   \<and> log (error_ch (exec (exec_of boom) Undefined
        (ExecSubject (exec_of boom) (Num 7) (Some spec_error) (Some spec_loading))))
      = [[Undefined, boom]]
   \<and> \<not> instanceof_Error (getValue (self (es_run (exec_of boom) [Exec Undefined, EsAttach]
        (ExecSubject (exec_of boom) (Num 7) (Some spec_error) (Some spec_loading)))))"
proof -
  let ?s = "\<lambda>E. ExecSubject E (Num 7) (Some spec_error) (Some spec_loading)"
  let ?t = "\<lambda>E a. exec E a (?s E)"
  note a = Error_instance_routed_to_error_channel [where s = "?t (exec_later boom) Undefined"
      and i = 0 and v = boom and ns = "[Complete]"]
  note b = Error_instance_routed_to_error_channel [where s = "?t exec_spec_later (Num 0)"
      and i = 0 and err = "Str ''bad''" and ns = "[]"]
  note c = Error_instance_routed_to_error_channel [where s = "?t (exec_later (Num 5)) Undefined"
      and i = 0 and v = "Num 5" and ns = "[Complete]"]
  note d = Error_instance_routed_to_error_channel [where s = "?s (exec_of boom)"
      and E = "exec_of boom" and a = Undefined and v = boom]
  have t: "?t (exec_later x) Undefined = \<lparr>self = \<lparr>cur = Num 7, observers = []\<rparr>,
      error_ch = Some spec_error,
      loading_ch = Some (bs_next (Bool True) spec_loading),
      execs = [\<lparr>args = Undefined, pending = [Next x, Complete], closed = False\<rparr>],
      innerSubscription = Some 0, allocated = 0\<rparr>" for x
    by (simp add: ExecSubject_def exec_def Let_def exec_later_def new_BehaviorSubject_def)
  have t': "?t exec_spec_later (Num 0) = \<lparr>self = \<lparr>cur = Num 7, observers = []\<rparr>,
      error_ch = Some spec_error,
      loading_ch = Some (bs_next (Bool True) spec_loading),
      execs = [\<lparr>args = Num 0, pending = [Error (Str ''bad'')], closed = False\<rparr>],
      innerSubscription = Some 0, allocated = 0\<rparr>"
    by (simp add: ExecSubject_def exec_def Let_def exec_spec_later_def new_BehaviorSubject_def)
  have i: "instanceof_Error boom"
    by (simp add: boom_def)
  have ha: "is_open 0 (execs (?t (exec_later boom) Undefined))
      \<and> pending (execs (?t (exec_later boom) Undefined) ! 0) = Next boom # [Complete]
      \<and> instanceof_Error boom"
    by (simp add: t is_open_def i)
  have hb: "is_open 0 (execs (?t exec_spec_later (Num 0)))
      \<and> pending (execs (?t exec_spec_later (Num 0)) ! 0) = Error (Str ''bad'') # []"
    by (simp add: t' is_open_def)
  have hc: "is_open 0 (execs (?t (exec_later (Num 5)) Undefined))
      \<and> pending (execs (?t (exec_later (Num 5)) Undefined) ! 0) = Next (Num 5) # [Complete]
      \<and> \<not> instanceof_Error (Num 5)"
    by (simp add: t is_open_def)
  have hd: "sync (exec_of boom (length (execs (?s (exec_of boom)))) Undefined)
      = [Next boom, Complete] \<and> instanceof_Error boom"
    by (simp add: exec_of_def i)
  have he: "\<not> instanceof_Error (getValue (self (?s (exec_of boom))))"
    by (simp add: ExecSubject_def new_BehaviorSubject_def getValue_def)
  note a1 = a [THEN conjunct1, THEN mp, OF ha]
  note b2 = b [THEN conjunct2, THEN conjunct1, THEN mp, OF hb]
  note c3 = c [THEN conjunct2, THEN conjunct2, THEN conjunct1, THEN mp, OF hc]
  note d4 = d [THEN conjunct2, THEN conjunct2, THEN conjunct2, THEN conjunct1, THEN mp, OF hd]
  note d5 = d [THEN conjunct2, THEN conjunct2, THEN conjunct2, THEN conjunct2, THEN mp, OF he,
      THEN spec, of "[Exec Undefined, EsAttach]"]
  show ?thesis
    using ha a1 b2 c3 d4 d5
    by (simp add: t t')
       (simp add: ExecSubject_def ch_eval new_Error_def new_BehaviorSubject_def bs_subscribe_def
        bs_next_def plain_observer_def getValue_def)
qed

section \<open>ExecSubject: what the error channel receives\<close>

lemma error_ch_performExec_sync_raises:
  "is_open i (execs s) \<Longrightarrow>
   error_ch (performExec_sync i (map Next vs @ Error err # ns) s)
     = map_option (\<lambda>b. bs_next (new_Error (allocated s) err)
         (foldl (\<lambda>b v. bs_next v b) b (filter instanceof_Error vs))) (error_ch s)
   \<and> allocated (performExec_sync i (map Next vs @ Error err # ns) s) = Suc (allocated s)"
proof (induction vs arbitrary: s)
  case Nil
  then show ?case
    by (simp add: performExec_sync_Error performExec_Error_fields
        del: performExec.simps performExec_sync.simps)
next
  case (Cons v vs)
  from Cons.prems have o: "is_open i (execs (pipeline v s))" by simp
  from Cons.IH [OF o] Cons.prems show ?case
    by (cases "error_ch s") simp_all
qed

lemma exec_raises:
  assumes "sync (E (length (execs s)) a) = map Next vs @ Error err # ns"
  shows "error_ch (exec E a s)
     = map_option (\<lambda>b. bs_next (new_Error (allocated s) err)
         (foldl (\<lambda>b v. bs_next v b) b (filter instanceof_Error vs))) (error_ch s)"
    and "allocated (exec E a s) = Suc (allocated s)"
proof -
  let ?s = "s\<lparr>loading_ch := map_option (bs_next (Bool True)) (loading_ch s),
     execs := (case innerSubscription s of None \<Rightarrow> execs s | Some j \<Rightarrow> close j (execs s))
        @ [\<lparr>args = a, pending = async (E (length (execs s)) a), closed = False\<rparr>]\<rparr>"
  have o: "is_open (length (execs s)) (execs ?s)"
    by simp
  note r = error_ch_performExec_sync_raises [OF o, of vs err ns]
  show "error_ch (exec E a s)
     = map_option (\<lambda>b. bs_next (new_Error (allocated s) err)
         (foldl (\<lambda>b v. bs_next v b) b (filter instanceof_Error vs))) (error_ch s)"
    using r by (simp add: exec_unfold assms del: performExec_sync.simps)
  show "allocated (exec E a s) = Suc (allocated s)"
    using r by (simp add: exec_unfold assms del: performExec_sync.simps)
qed

text \<open>The allocation counter never goes back, so no identity is handed out twice.\<close>

lemma allocated_performExec: "allocated s \<le> allocated (performExec i n s)"
  by (cases n) (simp_all add: Let_def)

lemma allocated_performExec_sync: "allocated s \<le> allocated (performExec_sync i ns s)"
proof (induction ns arbitrary: s)
  case Nil
  then show ?case by simp
next
  case (Cons n ns)
  from Cons.IH [of "performExec i n s"] allocated_performExec [of s i n]
  show ?case by (simp del: performExec.simps)
qed

lemma allocated_exec: "allocated s \<le> allocated (exec E a s)"
  using allocated_performExec_sync
    [of "s\<lparr>loading_ch := map_option (bs_next (Bool True)) (loading_ch s),
       execs := (case innerSubscription s of None \<Rightarrow> execs s | Some j \<Rightarrow> close j (execs s))
         @ [\<lparr>args = a, pending = async (E (length (execs s)) a), closed = False\<rparr>]\<rparr>"
      "length (execs s)" "sync (E (length (execs s)) a)"]
  by (simp add: exec_unfold)

lemma allocated_es_fire: "allocated s \<le> allocated (es_fire i s)"
  using allocated_performExec
  by (simp add: es_fire_def split: list.splits del: performExec.simps)
     (metis es_state.select_convs(6) es_state.surjective es_state.update_convs(4))

lemma allocated_es_step: "allocated s \<le> allocated (es_step E s e)"
  by (cases e) (simp_all add: allocated_exec allocated_es_fire)

lemma allocated_es_run: "allocated s \<le> allocated (es_run E evs s)"
proof (induction evs arbitrary: s)
  case Nil
  then show ?case by (simp add: es_run_def)
next
  case (Cons e evs)
  from Cons.IH [of "es_step E s e"] allocated_es_step [of s E e]
  show ?case by (simp add: es_run_def)
qed

text \<open>
  C10: when the production of an invocation raises \<open>err\<close>, later or at subscription
  (there after emitting the values \<open>vs\<close> or none), the last thing the error channel is
  handed is the object made by \<open>new Error(err)\<close>: its identity is the next one of the
  allocation counter, which then advances and never goes back, and its message is the
  string conversion of \<open>err\<close>. This object is never \<open>err\<close> itself: it differs from
  every object of the caller and from every object the execution state object made
  before. When \<open>err\<close> is an \<open>Error\<close> object \<open>e\<close>, the message of the new object is the
  string conversion of \<open>e\<close>.
\<close>

theorem raised_value_wrapped_in_new_Error:
  "(is_open i (execs s) \<and> pending (execs s ! i) = Error err # ns \<longrightarrow>
      error_ch (es_fire i s)
        = map_option (bs_next (ErrorObj (Wrapped (allocated s))
            (if err = Undefined then Text [] else StringOf err))) (error_ch s)
      \<and> allocated (es_fire i s) = Suc (allocated s))
   \<and> (sync (E (length (execs s)) a) = map Next vs @ Error err # ns \<longrightarrow>
      error_ch (exec E a s)
        = map_option (\<lambda>b. bs_next (ErrorObj (Wrapped (allocated s))
              (if err = Undefined then Text [] else StringOf err))
            (foldl (\<lambda>b v. bs_next v b) b (filter instanceof_Error vs))) (error_ch s)
      \<and> allocated (exec E a s) = Suc (allocated s))
   \<and> (\<forall>evs. allocated s \<le> allocated (es_run E evs s))
   \<and> new_Error (allocated s) err \<noteq> err
   \<and> (\<forall>j m. new_Error (allocated s) err \<noteq> ErrorObj (Foreign j) m)
   \<and> (\<forall>j < allocated s. \<forall>m. new_Error (allocated s) err \<noteq> ErrorObj (Wrapped j) m)
   \<and> new_Error (allocated s) (ErrorObj r m)
       = ErrorObj (Wrapped (allocated s)) (StringOf (ErrorObj r m))"
proof (intro conjI impI allI)
  assume h: "is_open i (execs s) \<and> pending (execs s ! i) = Error err # ns"
  then show "error_ch (es_fire i s)
        = map_option (bs_next (ErrorObj (Wrapped (allocated s))
            (if err = Undefined then Text [] else StringOf err))) (error_ch s)"
    and "allocated (es_fire i s) = Suc (allocated s)"
    using es_fire_Error [of i s err ns] by (simp_all add: new_Error_def)
next
  assume h: "sync (E (length (execs s)) a) = map Next vs @ Error err # ns"
  note r = exec_raises [of E s a vs err ns, OF h]
  show "error_ch (exec E a s)
        = map_option (\<lambda>b. bs_next (ErrorObj (Wrapped (allocated s))
              (if err = Undefined then Text [] else StringOf err))
            (foldl (\<lambda>b v. bs_next v b) b (filter instanceof_Error vs))) (error_ch s)"
    using r(1) by (simp add: new_Error_def)
  show "allocated (exec E a s) = Suc (allocated s)"
    by (rule r(2))
next
  fix evs
  show "allocated s \<le> allocated (es_run E evs s)"
    by (rule allocated_es_run)
next
  show "new_Error (allocated s) err \<noteq> err"
    by (rule new_Error_neq)
next
  fix j m
  show "new_Error (allocated s) err \<noteq> ErrorObj (Foreign j) m"
    by (simp add: new_Error_def)
next
  fix j m
  assume "j < allocated s"
  then show "new_Error (allocated s) err \<noteq> ErrorObj (Wrapped j) m"
    by (simp add: new_Error_def)
next
  show "new_Error (allocated s) (ErrorObj r m)
       = ErrorObj (Wrapped (allocated s)) (StringOf (ErrorObj r m))"
    by (simp add: new_Error_def)
qed

theorem raised_value_wrapped_in_new_Error_witness:
  "is_open 0 (execs (es_run (exec_fails (Num 1) boom (Num 2)) [Exec Undefined, EsFire 0]
      (ExecSubject (exec_fails (Num 1) boom (Num 2)) (Num 7) (Some spec_error) None)))
   \<and> pending (execs (es_run (exec_fails (Num 1) boom (Num 2)) [Exec Undefined, EsFire 0]
      (ExecSubject (exec_fails (Num 1) boom (Num 2)) (Num 7) (Some spec_error) None)) ! 0)
      = [Error boom, Next (Num 2)]
   \<and> sync (exec_fails (Num 1) boom (Num 2) 1 Undefined)
      = [Next (Num 1), Error boom, Next (Num 2)]
   \<and> log (error_ch (es_run (exec_fails (Num 1) boom (Num 2))
        [Exec Undefined, EsFire 0, EsFire 0]
        (ExecSubject (exec_fails (Num 1) boom (Num 2)) (Num 7) (Some spec_error) None)))
      = [[Undefined, ErrorObj (Wrapped 0) (StringOf boom)]]
   \<and> log (error_ch (es_run (exec_fails (Num 1) boom (Num 2))
        [Exec Undefined, EsFire 0, Exec Undefined]
        (ExecSubject (exec_fails (Num 1) boom (Num 2)) (Num 7) (Some spec_error) None)))
      = [[Undefined, ErrorObj (Wrapped 0) (StringOf boom)]]
   \<and> ErrorObj (Wrapped 0) (StringOf boom) \<noteq> boom
   \<and> allocated (es_run (exec_fails (Num 1) boom (Num 2))
        [Exec Undefined, EsFire 0, EsFire 0]
        (ExecSubject (exec_fails (Num 1) boom (Num 2)) (Num 7) (Some spec_error) None)) = 1
   \<and> new_Error 1 boom \<noteq> ErrorObj (Wrapped 0) (StringOf boom)"
proof -
  let ?E = "exec_fails (Num 1) boom (Num 2)"
  let ?s = "es_run ?E [Exec Undefined, EsFire 0] (ExecSubject ?E (Num 7) (Some spec_error) None)"
  note a = raised_value_wrapped_in_new_Error [where s = ?s and i = 0 and err = boom
      and ns = "[Next (Num 2)]" and E = ?E and a = Undefined and vs = "[Num 1]"]
  note b = raised_value_wrapped_in_new_Error [where s = "es_fire 0 ?s" and err = boom]
  have s: "?s = \<lparr>self = \<lparr>cur = Num 1, observers = []\<rparr>,
      error_ch = Some spec_error, loading_ch = None,
      execs = [\<lparr>args = Undefined, pending = [Error boom, Next (Num 2)], closed = False\<rparr>],
      innerSubscription = Some 0, allocated = 0\<rparr>"
    by (simp add: es_eval exec_fails_def)
  have h1: "is_open 0 (execs ?s) \<and> pending (execs ?s ! 0) = Error boom # [Next (Num 2)]"
    by (simp add: s is_open_def)
  have h2: "sync (?E (length (execs ?s)) Undefined)
      = map Next [Num 1] @ Error boom # [Next (Num 2)]"
    by (simp add: s exec_fails_def)
  note a1 = a [THEN conjunct1, THEN mp, OF h1]
  note a2 = a [THEN conjunct2, THEN conjunct1, THEN mp, OF h2, THEN conjunct1]
  note a4 = a [THEN conjunct2, THEN conjunct2, THEN conjunct2, THEN conjunct1]
  have al: "allocated ?s = 0" "error_ch ?s = Some spec_error"
    by (simp_all add: s)
  have al1: "allocated (es_fire 0 ?s) = 1"
    using a1 [THEN conjunct2] by (simp add: al)
  have h3: "0 < allocated (es_fire 0 ?s)"
    by (simp add: al1)
  have b6: "new_Error (allocated (es_fire 0 ?s)) boom \<noteq> ErrorObj (Wrapped 0) (StringOf boom)"
    using b [THEN conjunct2, THEN conjunct2, THEN conjunct2, THEN conjunct2, THEN conjunct2,
      THEN conjunct1, THEN spec, THEN mp, OF h3] by (rule spec)
  have r: "es_run ?E [Exec Undefined, EsFire 0, EsFire 0]
        (ExecSubject ?E (Num 7) (Some spec_error) None) = es_fire 0 ?s"
    "es_run ?E [Exec Undefined, EsFire 0, Exec Undefined]
        (ExecSubject ?E (Num 7) (Some spec_error) None) = exec ?E Undefined ?s"
    by (simp_all add: es_run_def)
  have x: "sync (?E 1 Undefined) = [Next (Num 1), Error boom, Next (Num 2)]"
    by (simp add: exec_fails_def)
  show ?thesis
    using h1 x a1 [THEN conjunct1] a2 a4 al1 b6
    by (simp only: r al al1) (simp add: new_Error_def boom_def ch_eval bs_subscribe_def
        bs_next_def plain_observer_def new_BehaviorSubject_def)
qed

section \<open>ExecSubject: a superseded execution\<close>

lemma length_execs_performExec [simp]:
  "length (execs (performExec i n s)) = length (execs s)"
  by (cases n) (simp_all add: Let_def)

lemma length_execs_performExec_sync [simp]:
  "length (execs (performExec_sync i ns s)) = length (execs s)"
  by (induction ns arbitrary: s) (simp_all del: performExec.simps)

lemma length_execs_exec [simp]: "length (execs (exec E a s)) = Suc (length (execs s))"
  by (simp add: exec_unfold)

lemma length_execs_es_fire [simp]: "length (execs (es_fire i s)) = length (execs s)"
  by (simp add: es_fire_def split: list.splits del: performExec.simps)

lemma length_execs_es_step: "length (execs s) \<le> length (execs (es_step E s e))"
  by (cases e) simp_all

lemma length_execs_es_run: "length (execs s) \<le> length (execs (es_run E evs s))"
proof (induction evs arbitrary: s)
  case Nil
  then show ?case by (simp add: es_run_def)
next
  case (Cons e evs)
  from Cons.IH [of "es_step E s e"] length_execs_es_step [of s E e]
  show ?case by (simp add: es_run_def)
qed

lemma closed_at_performExec:
  "closed_at j (execs s) \<Longrightarrow> closed_at j (execs (performExec i n s))"
  by (cases n) (simp_all add: Let_def closed_at_close)

lemma closed_at_performExec_sync:
  "closed_at j (execs s) \<Longrightarrow> closed_at j (execs (performExec_sync i ns s))"
  by (induction ns arbitrary: s) (simp_all add: closed_at_performExec del: performExec.simps)

lemma closed_at_case_close:
  "closed_at j ss \<Longrightarrow> closed_at j (case c of None \<Rightarrow> ss | Some i \<Rightarrow> close i ss)"
  by (cases c) (simp_all add: closed_at_close)

lemma closed_at_exec: "closed_at j (execs s) \<Longrightarrow> closed_at j (execs (exec E a s))"
  by (simp add: exec_unfold closed_at_performExec_sync closed_at_append closed_at_case_close)

lemma closed_at_es_fire: "closed_at j (execs s) \<Longrightarrow> closed_at j (execs (es_fire i s))"
  by (simp add: es_fire_def closed_at_performExec closed_at_pending_update
      split: list.splits del: performExec.simps)

lemma closed_at_es_step: "closed_at j (execs s) \<Longrightarrow> closed_at j (execs (es_step E s e))"
  by (cases e) (simp_all add: closed_at_exec closed_at_es_fire)

lemma es_fire_closed: "\<not> is_open i (execs s) \<Longrightarrow> es_fire i s = s"
  by (simp add: es_fire_def)

text \<open>An exec leaves every earlier invocation closed.\<close>

lemma exec_closes_earlier:
  assumes "others_closed (innerSubscription s) (execs s)" and "j < length (execs s)"
  shows "closed_at j (execs (exec E a s))"
proof -
  have "closed_at j (case innerSubscription s of None \<Rightarrow> execs s | Some i \<Rightarrow> close i (execs s))"
  proof (cases "innerSubscription s = Some j")
    case True
    with assms(2) show ?thesis by (simp add: closed_at_close_self)
  next
    case False
    with assms have "closed_at j (execs s)"
      by (simp add: others_closed_def closed_at_def)
    then show ?thesis by (rule closed_at_case_close)
  qed
  then show ?thesis
    by (simp add: exec_unfold closed_at_performExec_sync closed_at_append)
qed

lemma others_closed_exec:
  assumes "others_closed (innerSubscription s) (execs s)"
  shows "others_closed (innerSubscription (exec E a s)) (execs (exec E a s))"
proof -
  have i: "innerSubscription (exec E a s) = Some (length (execs s))"
    by (simp add: exec_unfold)
  show ?thesis
    unfolding others_closed_def i
  proof (intro allI impI)
    fix j
    assume "j < length (execs (exec E a s))" and "Some (length (execs s)) \<noteq> Some j"
    then have "j < length (execs s)" by simp
    from exec_closes_earlier [OF assms this]
    show "closed (execs (exec E a s) ! j)" by (simp add: closed_at_def)
  qed
qed

lemma innerSubscription_performExec [simp]:
  "innerSubscription (performExec i n s) = innerSubscription s"
  by (cases n) (simp_all add: Let_def)

lemma innerSubscription_es_fire [simp]: "innerSubscription (es_fire i s) = innerSubscription s"
  by (simp add: es_fire_def split: list.splits del: performExec.simps)

lemma others_closed_es_fire:
  assumes "others_closed (innerSubscription s) (execs s)"
  shows "others_closed (innerSubscription s) (execs (es_fire i s))"
  unfolding others_closed_def
proof (intro allI impI)
  fix j
  assume "j < length (execs (es_fire i s))" and "innerSubscription s \<noteq> Some j"
  with assms have "closed_at j (execs s)"
    by (simp add: others_closed_def closed_at_def)
  from closed_at_es_fire [OF this] show "closed (execs (es_fire i s) ! j)"
    by (simp add: closed_at_def)
qed

lemma others_closed_es_step:
  "others_closed (innerSubscription s) (execs s) \<Longrightarrow>
   others_closed (innerSubscription (es_step E s e)) (execs (es_step E s e))"
  by (cases e) (simp_all add: others_closed_exec others_closed_es_fire)

lemma others_closed_es_run:
  "others_closed (innerSubscription s) (execs s) \<Longrightarrow>
   others_closed (innerSubscription (es_run E evs s)) (execs (es_run E evs s))"
proof (induction evs arbitrary: s)
  case Nil
  then show ?case by (simp add: es_run_def)
next
  case (Cons e evs)
  from Cons.IH [OF others_closed_es_step [OF Cons.prems]]
  show ?case by (simp add: es_run_def)
qed

lemma others_closed_init:
  "others_closed (innerSubscription (ExecSubject E v0 err ld)) (execs (ExecSubject E v0 err ld))"
  by (simp add: others_closed_def ExecSubject_def)

lemma others_closed_reachable:
  "others_closed (innerSubscription (es_run E evs (ExecSubject E v0 err ld)))
     (execs (es_run E evs (ExecSubject E v0 err ld)))"
  by (rule others_closed_es_run [OF others_closed_init])

text \<open>Notifications of closed invocations can be dropped from a run.\<close>

lemma es_run_skips_closed:
  assumes "\<And>e. e \<in> set evs \<Longrightarrow> D e \<Longrightarrow> (\<exists>j. e = EsFire j \<and> closed_at j (execs s))"
  shows "es_run E evs s = es_run E (filter (\<lambda>e. \<not> D e) evs) s"
  using assms
proof (induction evs arbitrary: s)
  case Nil
  then show ?case by simp
next
  case (Cons e evs)
  have keep: "\<And>e'. e' \<in> set evs \<Longrightarrow> D e' \<Longrightarrow>
      (\<exists>j. e' = EsFire j \<and> closed_at j (execs (es_step E s e)))"
  proof -
    fix e'
    assume "e' \<in> set evs" and "D e'"
    with Cons.prems [of e'] obtain j where "e' = EsFire j" and "closed_at j (execs s)"
      by auto
    then show "\<exists>j. e' = EsFire j \<and> closed_at j (execs (es_step E s e))"
      by (simp add: closed_at_es_step)
  qed
  show ?case
  proof (cases "D e")
    case True
    with Cons.prems [of e] obtain j where e: "e = EsFire j" and c: "closed_at j (execs s)"
      by auto
    then have same: "es_step E s e = s"
      by (simp add: es_fire_closed closed_at_not_open)
    from Cons.IH [of "es_step E s e"] keep True show ?thesis
      by (simp add: es_run_def same)
  next
    case False
    from Cons.IH [of "es_step E s e"] keep False show ?thesis
      by (simp add: es_run_def)
  qed
qed

lemma pending_close [simp]: "pending (close i ss ! j) = pending (ss ! j)"
  by (cases "i = j") (simp_all add: close_def)

lemma pending_performExec [simp]:
  "pending (execs (performExec i n s) ! j) = pending (execs s ! j)"
  by (cases n) (simp_all add: Let_def)

lemma pending_performExec_sync [simp]:
  "pending (execs (performExec_sync i ns s) ! j) = pending (execs s ! j)"
  by (induction ns arbitrary: s) (simp_all del: performExec.simps)

lemma pending_exec:
  "pending (execs (exec E a s) ! length (execs s)) = async (E (length (execs s)) a)"
  by (simp add: exec_unfold nth_append)

lemma cur_self_performExec:
  "cur (self (performExec i n s)) = cur (self s) \<or> n = Next (cur (self (performExec i n s)))"
  by (cases n) (simp_all add: Let_def)

lemma es_fire_current:
  assumes "is_open k (execs s)" and "pending (execs s ! k) = n # ns"
  shows "pending (execs (es_fire k s) ! k) = ns"
    and "cur (self (es_fire k s)) = cur (self s) \<or> n = Next (cur (self (es_fire k s)))"
proof -
  let ?s = "s\<lparr>execs := (execs s)[k := (execs s ! k)\<lparr>pending := ns\<rparr>]\<rparr>"
  from assms have f: "es_fire k s = performExec k n ?s"
    by (simp add: es_fire_def)
  from assms(1) show "pending (execs (es_fire k s) ! k) = ns"
    by (simp add: f is_open_def del: performExec.simps)
  from cur_self_performExec [of k n ?s]
  show "cur (self (es_fire k s)) = cur (self s) \<or> n = Next (cur (self (es_fire k s)))"
    by (simp add: f del: performExec.simps)
qed

text \<open>
  When every invocation but \<open>k\<close> is closed, notifications alone leave the public value
  as it is or make it a value that the production of \<open>k\<close> still had to emit.
\<close>

lemma only_current_sets_value:
  assumes "others_closed (Some k) (execs s)" and "list_all is_EsFire evs"
  shows "cur (self (es_run E evs s)) = cur (self s)
         \<or> Next (cur (self (es_run E evs s))) \<in> set (pending (execs s ! k))"
  using assms
proof (induction evs arbitrary: s)
  case Nil
  then show ?case by (simp add: es_run_def)
next
  case (Cons e evs)
  from Cons.prems(2) obtain j where e: "e = EsFire j" and rest: "list_all is_EsFire evs"
    by (cases e) simp_all
  have run: "es_run E (e # evs) s = es_run E evs (es_fire j s)"
    by (simp add: es_run_def e)
  show ?case
  proof (cases "is_open j (execs s) \<and> pending (execs s ! j) \<noteq> []")
    case False
    then have "es_fire j s = s"
      by (auto simp: es_fire_def split: list.splits)
    with Cons.IH [OF Cons.prems(1) rest] run show ?thesis by simp
  next
    case True
    then obtain n ns where p: "pending (execs s ! j) = n # ns"
      by (cases "pending (execs s ! j)") simp_all
    from True Cons.prems(1) have jk: "j = k"
      by (auto simp: others_closed_def is_open_def)
    from True jk have o: "is_open k (execs s)" by simp
    from p jk have pk: "pending (execs s ! k) = n # ns" by simp
    have oc: "others_closed (Some k) (execs (es_fire k s))"
      unfolding others_closed_def
    proof (intro allI impI)
      fix i
      assume "i < length (execs (es_fire k s))" and "Some k \<noteq> Some i"
      with Cons.prems(1) have "closed_at i (execs s)"
        by (simp add: others_closed_def closed_at_def)
      from closed_at_es_fire [OF this] show "closed (execs (es_fire k s) ! i)"
        by (simp add: closed_at_def)
    qed
    from Cons.IH [OF oc rest] es_fire_current [OF o pk] run jk pk
    show ?thesis by auto
  qed
qed

text \<open>What \<open>exec\<close> hands to the object itself: the values of the new production only.\<close>

lemma self_performExec_sync:
  "is_open i (execs s) \<Longrightarrow>
   self (performExec_sync i ns s)
     = foldl (\<lambda>b v. bs_next v b) (self s)
         (filter (\<lambda>v. \<not> instanceof_Error v) (sync_forwarded ns))"
proof (induction ns arbitrary: s)
  case Nil
  then show ?case by simp
next
  case (Cons n ns)
  show ?case
  proof (cases n)
    case (Next v)
    from Cons.prems have "is_open i (execs (pipeline v s))" by simp
    from Cons.IH [OF this] Cons.prems Next show ?thesis by simp
  next
    case (Error e)
    with Cons.prems show ?thesis
      by (simp add: performExec_sync_Error performExec_Error_fields
          del: performExec.simps performExec_sync.simps)
  next
    case Complete
    with Cons.prems show ?thesis by (simp add: performExec_sync_closed)
  qed
qed

lemma self_exec:
  "self (exec E a s)
     = foldl (\<lambda>b v. bs_next v b) (self s)
         (filter (\<lambda>v. \<not> instanceof_Error v)
            (sync_forwarded (sync (E (length (execs s)) a))))"
  by (simp add: exec_unfold self_performExec_sync)

text \<open>
  Two runs from states that differ at most in what invocation \<open>i\<close> has still to send
  stay so, as long as that invocation delivers nothing.
\<close>

lemma same_but_pending_refl [simp]: "same_but_pending i ss ss"
  by (simp add: same_but_pending_def)

lemma same_but_pending_close:
  "same_but_pending i ss ss' \<Longrightarrow> same_but_pending i (close j ss) (close j ss')"
  by (auto simp: same_but_pending_def close_def nth_list_update)

lemma same_but_pending_case_close:
  "same_but_pending i ss ss' \<Longrightarrow>
   same_but_pending i (case c of None \<Rightarrow> ss | Some j \<Rightarrow> close j ss)
     (case c of None \<Rightarrow> ss' | Some j \<Rightarrow> close j ss')"
  by (cases c) (simp_all add: same_but_pending_close)

lemma same_but_pending_append:
  "same_but_pending i ss ss' \<Longrightarrow> (length ss \<noteq> i \<Longrightarrow> p = p') \<Longrightarrow>
   same_but_pending i (ss @ [\<lparr>args = a, pending = p, closed = False\<rparr>])
     (ss' @ [\<lparr>args = a, pending = p', closed = False\<rparr>])"
  by (auto simp: same_but_pending_def nth_append)

lemma same_but_pending_update:
  "same_but_pending i ss ss' \<Longrightarrow>
   same_but_pending i (ss[j := (ss ! j)\<lparr>pending := ns\<rparr>]) (ss'[j := (ss' ! j)\<lparr>pending := ns\<rparr>])"
proof (cases "j < length ss")
  case True
  assume "same_but_pending i ss ss'"
  with True show ?thesis
    by (auto simp: same_but_pending_def nth_list_update)
next
  case False
  assume "same_but_pending i ss ss'"
  with False show ?thesis
    by (simp add: same_but_pending_def)
qed

lemma same_but_pending_is_open:
  "same_but_pending i ss ss' \<Longrightarrow> is_open j ss = is_open j ss'"
  by (auto simp: same_but_pending_def is_open_def)

lemma same_but_pending_pending:
  "same_but_pending i ss ss' \<Longrightarrow> is_open j ss \<Longrightarrow> j \<noteq> i \<Longrightarrow>
   pending (ss ! j) = pending (ss' ! j)"
  by (auto simp: same_but_pending_def is_open_def)

lemma alike_refl [simp]: "alike i s s"
  by (simp add: alike_def)

lemma alike_performExec:
  "alike i s s' \<Longrightarrow> alike i (performExec j n s) (performExec j n s')"
  by (cases n) (auto simp: alike_def visible_def Let_def same_but_pending_close)

lemma alike_performExec_sync:
  "alike i s s' \<Longrightarrow> alike i (performExec_sync j ns s) (performExec_sync j ns s')"
proof (induction ns arbitrary: s s')
  case Nil
  then show ?case by simp
next
  case (Cons n ns)
  from Cons.prems have o: "is_open j (execs s) = is_open j (execs s')"
    using same_but_pending_is_open [of i "execs s" "execs s'" j] by (simp add: alike_def)
  from Cons.IH [OF alike_performExec [OF Cons.prems]] Cons.prems o
  show ?case by (simp del: performExec.simps)
qed

lemma alike_exec:
  assumes "alike i s s'" and "later_only i E E'"
  shows "alike i (exec E a s) (exec E' a s')"
proof -
  let ?k = "length (execs s)"
  from assms(1) have l: "length (execs s') = ?k"
    by (simp add: alike_def same_but_pending_def)
  from assms(2) have sy: "sync (E' ?k a) = sync (E ?k a)"
    and asy: "?k \<noteq> i \<Longrightarrow> async (E ?k a) = async (E' ?k a)"
    by (simp_all add: later_only_def)
  let ?pre = "\<lambda>s E. s\<lparr>loading_ch := map_option (bs_next (Bool True)) (loading_ch s),
     execs := (case innerSubscription s of None \<Rightarrow> execs s | Some j \<Rightarrow> close j (execs s))
        @ [\<lparr>args = a, pending = async (E ?k a), closed = False\<rparr>]\<rparr>"
  from assms(1) have "same_but_pending i
      (case innerSubscription s of None \<Rightarrow> execs s | Some j \<Rightarrow> close j (execs s))
      (case innerSubscription s of None \<Rightarrow> execs s' | Some j \<Rightarrow> close j (execs s'))"
    by (simp add: alike_def same_but_pending_case_close)
  from same_but_pending_append [OF this, of "async (E ?k a)" "async (E' ?k a)" a] asy
  have "same_but_pending i (execs (?pre s E)) (execs (?pre s' E'))"
    using assms(1) by (simp add: alike_def)
  with assms(1) have "alike i (?pre s E) (?pre s' E')"
    by (simp add: alike_def visible_def)
  from alike_performExec_sync [OF this, of ?k "sync (E ?k a)"]
  show ?thesis
    by (simp add: exec_unfold l sy) (simp add: alike_def visible_def)
qed

lemma alike_es_fire:
  assumes "alike i s s'" and "j \<noteq> i \<or> \<not> is_open i (execs s)"
  shows "alike i (es_fire j s) (es_fire j s')"
proof (cases "is_open j (execs s)")
  case False
  with assms(1) have "\<not> is_open j (execs s')"
    using same_but_pending_is_open [of i "execs s" "execs s'" j] by (simp add: alike_def)
  with False assms(1) show ?thesis by (simp add: es_fire_def)
next
  case True
  with assms(2) have ji: "j \<noteq> i" by auto
  from True assms(1) have o': "is_open j (execs s')"
    using same_but_pending_is_open [of i "execs s" "execs s'" j] by (simp add: alike_def)
  from assms(1) True ji have p: "pending (execs s' ! j) = pending (execs s ! j)"
    using same_but_pending_pending [of i "execs s" "execs s'" j] by (simp add: alike_def)
  show ?thesis
  proof (cases "pending (execs s ! j)")
    case Nil
    with True o' p assms(1) show ?thesis by (simp add: es_fire_def)
  next
    case (Cons n ns)
    let ?u = "\<lambda>s. s\<lparr>execs := (execs s)[j := (execs s ! j)\<lparr>pending := ns\<rparr>]\<rparr>"
    from assms(1) have "alike i (?u s) (?u s')"
      by (simp add: alike_def visible_def same_but_pending_update)
    from alike_performExec [OF this, of j n] True o' p Cons show ?thesis
      by (simp add: es_fire_def del: performExec.simps)
  qed
qed

lemma alike_es_step:
  assumes "alike i s s'" and "later_only i E E'"
    and "e = EsFire i \<Longrightarrow> \<not> is_open i (execs s)"
  shows "alike i (es_step E s e) (es_step E' s' e)"
proof (cases e)
  case (Exec a)
  with assms show ?thesis by (simp add: alike_exec)
next
  case EsAttach
  with assms(1) show ?thesis by (simp add: alike_def visible_def)
next
  case (EsFire j)
  with assms(1,3) show ?thesis by (auto intro: alike_es_fire)
qed

lemma alike_es_run_quiet:
  assumes "alike i s s'" and "later_only i E E'" and "EsFire i \<notin> set evs"
  shows "alike i (es_run E evs s) (es_run E' evs s')"
  using assms
proof (induction evs arbitrary: s s')
  case Nil
  then show ?case by (simp add: es_run_def)
next
  case (Cons e evs)
  from Cons.prems have "alike i (es_step E s e) (es_step E' s' e)"
    by (intro alike_es_step) auto
  from Cons.IH [OF this Cons.prems(2)] Cons.prems(3) show ?case
    by (simp add: es_run_def)
qed

lemma alike_es_run_closed:
  assumes "alike i s s'" and "later_only i E E'" and "closed_at i (execs s)"
  shows "alike i (es_run E evs s) (es_run E' evs s')"
  using assms
proof (induction evs arbitrary: s s')
  case Nil
  then show ?case by (simp add: es_run_def)
next
  case (Cons e evs)
  from Cons.prems have a: "alike i (es_step E s e) (es_step E' s' e)"
    by (intro alike_es_step) (simp_all add: closed_at_not_open)
  from Cons.prems(3) have c: "closed_at i (execs (es_step E s e))"
    by (rule closed_at_es_step)
  from Cons.IH [OF a Cons.prems(2) c] show ?case
    by (simp add: es_run_def)
qed

text \<open>
  C1: take any state the object can reach, call \<open>exec(a1)\<close>, let anything happen, and
  call \<open>exec(a2)\<close>. Then the subscription to the production of the \<open>a1\<close> invocation is
  closed, and from then on every run is the run without the notifications of that
  invocation: whenever its production emits or fails, before or after the one of \<open>a2\<close>,
  nothing changes, neither the public value nor the channels. The same holds for every
  invocation made before the one of \<open>a2\<close>. And as long as only productions deliver,
  the public value stays what it was after \<open>exec(a2)\<close> or is a value emitted by the
  production of the \<open>a2\<close> invocation. The call \<open>exec(a2)\<close> itself hands the object
  only what the production of the \<open>a2\<close> invocation emits at subscription, on top of
  the state before the call. Finally, when nothing of the production of the \<open>a1\<close>
  invocation is delivered between the two calls, what that production sends after
  its subscription has no influence at all: with any other executor that differs only
  there, the public value, the error channel and the loading channel come out the
  same, after every continuation.
\<close>

theorem superseded_execution_cannot_affect_state:
  "closed_at (length (execs (es_run E evs0 (ExecSubject E v0 err ld))))
     (execs (exec E a2 (es_run E evs1 (exec E a1 (es_run E evs0 (ExecSubject E v0 err ld))))))
   \<and> (\<forall>evs.
        es_run E evs
          (exec E a2 (es_run E evs1 (exec E a1 (es_run E evs0 (ExecSubject E v0 err ld)))))
        = es_run E
            (filter (\<lambda>e. e \<noteq> EsFire (length (execs (es_run E evs0 (ExecSubject E v0 err ld)))))
               evs)
            (exec E a2 (es_run E evs1 (exec E a1 (es_run E evs0 (ExecSubject E v0 err ld))))))
   \<and> (\<forall>evs.
        es_run E evs
          (exec E a2 (es_run E evs1 (exec E a1 (es_run E evs0 (ExecSubject E v0 err ld)))))
        = es_run E
            (filter (\<lambda>e. \<not> fires_before
               (length (execs (es_run E evs1 (exec E a1 (es_run E evs0
                  (ExecSubject E v0 err ld)))))) e) evs)
            (exec E a2 (es_run E evs1 (exec E a1 (es_run E evs0 (ExecSubject E v0 err ld))))))
   \<and> (\<forall>evs. list_all is_EsFire evs \<longrightarrow>
        getValue (self (es_run E evs
          (exec E a2 (es_run E evs1 (exec E a1 (es_run E evs0 (ExecSubject E v0 err ld)))))))
        = getValue (self
          (exec E a2 (es_run E evs1 (exec E a1 (es_run E evs0 (ExecSubject E v0 err ld))))))
        \<or> Next (getValue (self (es_run E evs
          (exec E a2 (es_run E evs1 (exec E a1 (es_run E evs0 (ExecSubject E v0 err ld))))))))
          \<in> set (async (E (length (execs (es_run E evs1 (exec E a1 (es_run E evs0
                (ExecSubject E v0 err ld)))))) a2)))
   \<and> self (exec E a2 (es_run E evs1 (exec E a1 (es_run E evs0 (ExecSubject E v0 err ld)))))
       = foldl (\<lambda>b v. bs_next v b)
           (self (es_run E evs1 (exec E a1 (es_run E evs0 (ExecSubject E v0 err ld)))))
           (filter (\<lambda>v. \<not> instanceof_Error v)
              (sync_forwarded (sync (E (length (execs (es_run E evs1 (exec E a1 (es_run E evs0
                (ExecSubject E v0 err ld)))))) a2))))
   \<and> (\<forall>E' evs.
        later_only (length (execs (es_run E evs0 (ExecSubject E v0 err ld)))) E E'
        \<and> EsFire (length (execs (es_run E evs0 (ExecSubject E v0 err ld)))) \<notin> set evs1
        \<longrightarrow>
        visible (es_run E' evs
          (exec E' a2 (es_run E' evs1 (exec E' a1 (es_run E evs0 (ExecSubject E v0 err ld))))))
        = visible (es_run E evs
          (exec E a2 (es_run E evs1 (exec E a1 (es_run E evs0 (ExecSubject E v0 err ld)))))))"
proof -
  let ?s0 = "es_run E evs0 (ExecSubject E v0 err ld)"
  let ?t = "es_run E evs1 (exec E a1 ?s0)"
  let ?s2 = "exec E a2 ?t"
  let ?i = "length (execs ?s0)"
  let ?k = "length (execs ?t)"
  have oc0: "others_closed (innerSubscription ?s0) (execs ?s0)"
    by (rule others_closed_reachable)
  have oct: "others_closed (innerSubscription ?t) (execs ?t)"
    by (rule others_closed_es_run [OF others_closed_exec [OF oc0]])
  have ik: "?i < ?k"
    using length_execs_es_run [of "exec E a1 ?s0" E evs1] by simp
  have dead: "closed_at j (execs ?s2)" if "j < ?k" for j
    using that by (rule exec_closes_earlier [OF oct])
  have c1: "closed_at ?i (execs ?s2)"
    by (rule dead [OF ik])
  have c2: "es_run E evs ?s2 = es_run E (filter (\<lambda>e. e \<noteq> EsFire ?i) evs) ?s2" for evs
    using es_run_skips_closed [of evs "\<lambda>e. e = EsFire ?i" ?s2 E] c1 by simp
  have c3: "es_run E evs ?s2 = es_run E (filter (\<lambda>e. \<not> fires_before ?k e) evs) ?s2" for evs
  proof (rule es_run_skips_closed)
    fix e
    assume "fires_before ?k e"
    then obtain j where "e = EsFire j" and "j < ?k"
      by (cases e) simp_all
    with dead show "\<exists>j. e = EsFire j \<and> closed_at j (execs ?s2)"
      by blast
  qed
  have oc2: "others_closed (Some ?k) (execs ?s2)"
    using others_closed_exec [OF oct, of E a2] by (simp add: exec_unfold)
  have c4: "getValue (self (es_run E evs ?s2)) = getValue (self ?s2)
      \<or> Next (getValue (self (es_run E evs ?s2))) \<in> set (async (E ?k a2))"
    if "list_all is_EsFire evs" for evs
    using only_current_sets_value [OF oc2 that, of E] by (simp add: getValue_def pending_exec)
  have c5: "self ?s2 = foldl (\<lambda>b v. bs_next v b) (self ?t)
      (filter (\<lambda>v. \<not> instanceof_Error v) (sync_forwarded (sync (E ?k a2))))"
    by (rule self_exec)
  have c6: "visible (es_run E' evs (exec E' a2 (es_run E' evs1 (exec E' a1 ?s0))))
      = visible (es_run E evs ?s2)"
    if h: "later_only ?i E E' \<and> EsFire ?i \<notin> set evs1" for E' evs
  proof -
    from h have lo: "later_only ?i E E'" and nf: "EsFire ?i \<notin> set evs1"
      by simp_all
    have a1: "alike ?i (exec E a1 ?s0) (exec E' a1 ?s0)"
      by (rule alike_exec [OF alike_refl lo])
    have at: "alike ?i ?t (es_run E' evs1 (exec E' a1 ?s0))"
      by (rule alike_es_run_quiet [OF a1 lo nf])
    have a2: "alike ?i ?s2 (exec E' a2 (es_run E' evs1 (exec E' a1 ?s0)))"
      by (rule alike_exec [OF at lo])
    have "alike ?i (es_run E evs ?s2)
        (es_run E' evs (exec E' a2 (es_run E' evs1 (exec E' a1 ?s0))))"
      by (rule alike_es_run_closed [OF a2 lo c1])
    then show ?thesis
      by (simp add: alike_def)
  qed
  show ?thesis
    by (intro conjI allI impI; (rule c1 | rule c2 | rule c3 | erule c4 | rule c5 | erule c6))
qed

theorem superseded_execution_cannot_affect_state_witness:
  "list_all is_EsFire [EsFire 1, EsFire 0]
   \<and> later_only 0 exec_double exec_double_but
   \<and> EsFire 0 \<notin> set ([] :: es_event list)
   \<and> async (exec_double 1 (Num 5)) = [Next (Num 10), Complete]
   \<and> async (exec_double_but 0 (Num 3)) = [Next (Num 99), Error (Str ''bad'')]
   \<and> closed_at 0 (execs (exec exec_double (Num 5) (es_run exec_double []
        (exec exec_double (Num 3) (es_run exec_double [EsAttach]
          (ExecSubject exec_double (Num 0) None None))))))
   \<and> es_run exec_double [EsFire 1, EsFire 0] (exec exec_double (Num 5) (es_run exec_double []
        (exec exec_double (Num 3) (es_run exec_double [EsAttach]
          (ExecSubject exec_double (Num 0) None None)))))
      = es_run exec_double [EsFire 1] (exec exec_double (Num 5) (es_run exec_double []
        (exec exec_double (Num 3) (es_run exec_double [EsAttach]
          (ExecSubject exec_double (Num 0) None None)))))
   \<and> self (exec exec_double (Num 5) (es_run exec_double []
        (exec exec_double (Num 3) (es_run exec_double [EsAttach]
          (ExecSubject exec_double (Num 0) None None)))))
      = \<lparr>cur = Num 0, observers = [\<lparr>pipe = Direct, key = None, received = [Num 0]\<rparr>]\<rparr>
   \<and> self (es_run exec_double [EsFire 1, EsFire 0] (exec exec_double (Num 5)
        (es_run exec_double [] (exec exec_double (Num 3) (es_run exec_double [EsAttach]
          (ExecSubject exec_double (Num 0) None None))))))
      = \<lparr>cur = Num 10,
         observers = [\<lparr>pipe = Direct, key = None, received = [Num 0, Num 10]\<rparr>]\<rparr>
   \<and> self (es_run exec_double [EsFire 0, EsFire 1, EsFire 0] (exec exec_double (Num 5)
        (es_run exec_double [] (exec exec_double (Num 3) (es_run exec_double [EsAttach]
          (ExecSubject exec_double (Num 0) None None))))))
      = \<lparr>cur = Num 10,
         observers = [\<lparr>pipe = Direct, key = None, received = [Num 0, Num 10]\<rparr>]\<rparr>
   \<and> visible (es_run exec_double_but [EsFire 0, EsFire 1, EsFire 0]
        (exec exec_double_but (Num 5) (es_run exec_double_but []
          (exec exec_double_but (Num 3) (es_run exec_double [EsAttach]
            (ExecSubject exec_double (Num 0) None None))))))
      = (\<lparr>cur = Num 10,
           observers = [\<lparr>pipe = Direct, key = None, received = [Num 0, Num 10]\<rparr>]\<rparr>,
         None, None)"
proof -
  let ?E = exec_double
  let ?E' = exec_double_but
  let ?s0 = "es_run ?E [EsAttach] (ExecSubject ?E (Num 0) None None)"
  let ?s2 = "exec ?E (Num 5) (es_run ?E [] (exec ?E (Num 3) ?s0))"
  let ?s2' = "exec ?E' (Num 5) (es_run ?E' [] (exec ?E' (Num 3) ?s0))"
  note t = superseded_execution_cannot_affect_state [where E = ?E and ?evs0.0 = "[EsAttach]"
      and ?v0.0 = "Num 0" and err = None and ld = None and ?a1.0 = "Num 3" and ?evs1.0 = "[]"
      and ?a2.0 = "Num 5"]
  have i: "length (execs ?s0) = 0"
    by (simp add: es_eval)
  have s2: "?s2 = \<lparr>self = \<lparr>cur = Num 0,
        observers = [\<lparr>pipe = Direct, key = None, received = [Num 0]\<rparr>]\<rparr>,
      error_ch = None, loading_ch = None,
      execs = [\<lparr>args = Num 3, pending = [Next (Num 6), Complete], closed = True\<rparr>,
        \<lparr>args = Num 5, pending = [Next (Num 10), Complete], closed = False\<rparr>],
      innerSubscription = Some 1, allocated = 0\<rparr>"
    by (simp add: es_eval exec_double_def)
  have h: "list_all is_EsFire [EsFire 1, EsFire 0]"
    by simp
  have lo: "later_only 0 ?E ?E'"
    by (simp add: later_only_def exec_double_but_def exec_double_def)
  have h6: "later_only (length (execs ?s0)) ?E ?E'
      \<and> EsFire (length (execs ?s0)) \<notin> set ([] :: es_event list)"
    using lo by (simp only: i) simp
  have c1: "closed_at 0 (execs ?s2)"
    using t [THEN conjunct1] by (simp only: i)
  have c2: "es_run ?E [EsFire 1, EsFire 0] ?s2
      = es_run ?E (filter (\<lambda>e. e \<noteq> EsFire 0) [EsFire 1, EsFire 0]) ?s2"
    using t [THEN conjunct2, THEN conjunct1, THEN spec, of "[EsFire 1, EsFire 0]"]
    by (simp only: i)
  have c3: "es_run ?E [EsFire 0, EsFire 1, EsFire 0] ?s2
      = es_run ?E (filter (\<lambda>e. e \<noteq> EsFire 0) [EsFire 0, EsFire 1, EsFire 0]) ?s2"
    using t [THEN conjunct2, THEN conjunct1, THEN spec, of "[EsFire 0, EsFire 1, EsFire 0]"]
    by (simp only: i)
  have c6: "visible (es_run ?E' [EsFire 0, EsFire 1, EsFire 0] ?s2')
      = visible (es_run ?E [EsFire 0, EsFire 1, EsFire 0] ?s2)"
    using t [THEN conjunct2, THEN conjunct2, THEN conjunct2, THEN conjunct2, THEN conjunct2,
      THEN spec, THEN spec, THEN mp, OF h6] .
  have f: "filter (\<lambda>e. e \<noteq> EsFire 0) [EsFire 1, EsFire 0] = [EsFire 1]"
    "filter (\<lambda>e. e \<noteq> EsFire 0) [EsFire 0, EsFire 1, EsFire 0] = [EsFire 1]"
    by simp_all
  have v: "self (es_run ?E [EsFire 1] ?s2) = \<lparr>cur = Num 10,
         observers = [\<lparr>pipe = Direct, key = None, received = [Num 0, Num 10]\<rparr>]\<rparr>"
    "error_ch (es_run ?E [EsFire 1] ?s2) = None"
    "loading_ch (es_run ?E [EsFire 1] ?s2) = None"
    unfolding s2 by (simp_all add: es_eval)
  have v2: "self ?s2
      = \<lparr>cur = Num 0, observers = [\<lparr>pipe = Direct, key = None, received = [Num 0]\<rparr>]\<rparr>"
    by (simp add: s2)
  have a: "async (exec_double 1 (Num 5)) = [Next (Num 10), Complete]"
    "async (exec_double_but 0 (Num 3)) = [Next (Num 99), Error (Str ''bad'')]"
    by (simp_all add: exec_double_def exec_double_but_def)
  have vis: "visible (es_run ?E [EsFire 1] ?s2)
      = (\<lparr>cur = Num 10,
           observers = [\<lparr>pipe = Direct, key = None, received = [Num 0, Num 10]\<rparr>]\<rparr>,
         None, None)"
    by (simp only: visible_def v)
  have c6': "visible (es_run ?E' [EsFire 0, EsFire 1, EsFire 0] ?s2')
      = (\<lparr>cur = Num 10,
           observers = [\<lparr>pipe = Direct, key = None, received = [Num 0, Num 10]\<rparr>]\<rparr>,
         None, None)"
    by (simp only: c6 c3 [unfolded f] vis)
  show ?thesis
    using h lo a c1 c2 [unfolded f] c3 [unfolded f] v(1) v2 c6' by simp
qed

end
